theory Spec2Isabelle
  imports Main "HOL-Library.Sublist"
begin

section \<open>Values\<close>

text \<open>
  A Go \<^verbatim>\<open>error\<close> is identified by its message; \<^verbatim>\<open>nil\<close> is \<open>None\<close> of
  \<open>error option\<close>. A panic payload is either an error value or some other value, kept
  by its \<^verbatim>\<open>%v\<close> rendering. A call either returns or panics; the state it leaves
  behind is returned beside either result.
\<close>

datatype error = Error string

datatype payload = PanicError error | PanicValue string

datatype 'a result = Returns 'a | Panics payload

text \<open>
  What the Go runtime raises when a nil pointer is dereferenced: a \<^verbatim>\<open>runtime.Error\<close>,
  which is an error value.
\<close>

definition nilPointerDereference :: payload where
  "nilPointerDereference =
     PanicError (Error ''runtime error: invalid memory address or nil pointer dereference'')"

text \<open>A database handle: a \<^verbatim>\<open>*gorm.DB\<close> that is not nil.\<close>

type_synonym dbh = nat

section \<open>The transaction context node (package transaction)\<close>

text \<open>
  \<^verbatim>\<open>*transContext\<close>. The fields \<^verbatim>\<open>parent\<close> and \<^verbatim>\<open>db\<close> are written once, by
  \<^verbatim>\<open>Start\<close>, and never assigned again, so a pointer value carries them with the
  address of its node: \<open>NilRef\<close> is the nil pointer, \<open>Ref a p d\<close> the node at address
  \<open>a\<close> with parent \<open>p\<close> and handle \<open>d\<close>. The fields that are assigned after
  construction live in the store, at the node's address (record \<open>transContext\<close>).
  The mutex is left out: the model is of one goroutine.
\<close>

datatype transContextRef = NilRef | Ref nat transContextRef dbh

text \<open>
  A \<^verbatim>\<open>context.Context\<close>, reduced to the bindings the manager has added with
  \<^verbatim>\<open>context.WithValue\<close>, newest first; \<^verbatim>\<open>ctx.Value(k)\<close> is \<open>map_of ctx k\<close>. A
  binding holds a node pointer or nil. The keys are the provider's strings.
\<close>

type_synonym ctx = "(string \<times> transContextRef) list"

text \<open>
  The callbacks a caller registers with \<^verbatim>\<open>OnCommitted\<close> and \<^verbatim>\<open>OnRollbacked\<close> are
  functions of the caller. A number names such a callback, and what it does when it is
  called is a \<open>behaviour\<close>: it returns, or panics, or first registers another callback
  with the manager and goes on (\<open>RegisterCommitted tg c b k\<close>: call \<^verbatim>\<open>OnCommitted\<close>
  with the callback named \<open>c\<close>, whose behaviour is \<open>b\<close>, then go on as \<open>k\<close>). It
  registers on the context it is called with (\<open>Given\<close>) or on the one it has captured,
  which is the context it was itself registered with (\<open>Captured\<close>).
\<close>

datatype target = Given | Captured

datatype behaviour =
    ThenReturn
  | ThenPanic payload
  | RegisterCommitted target nat behaviour behaviour
  | RegisterRollbacked target nat behaviour behaviour

datatype userCallback = UserCallback (userName: nat) (userBehaviour: behaviour)

text \<open>
  The closures of the program, as data. \<open>errCallback\<close> is a \<^verbatim>\<open>func(error)\<close>: the one
  built by the manager's \<^verbatim>\<open>OnRollbacked\<close> around the user callback and the context.
  \<open>callback\<close> is a \<^verbatim>\<open>func()\<close>: the one built by the manager's \<^verbatim>\<open>OnCommitted\<close>,
  and the two \<^verbatim>\<open>callbackFunc\<close> wrappers of the node.
\<close>

datatype errCallback = ManagerOnRollbacked userCallback ctx

datatype callback =
    ManagerOnCommitted userCallback ctx
  | IfCommitted transContextRef callback
  | IfRollbacked transContextRef errCallback

record transContext =
  onCommittedCallbacks :: "callback list"
  onRollbackedCallbacks :: "callback list"
  done_flag :: bool
  panicked :: bool
  err :: "error option"

text \<open>
  What the caller can observe: a user callback being called (with the context and, for a
  rollback callback, the error it receives), and the answer a transaction callback got
  when it asked \<^verbatim>\<open>InTransaction\<close> of its context.
\<close>

datatype event =
    CommittedCalled nat ctx
  | RollbackedCalled nat ctx error
  | Observed ctx bool

record state =
  mem :: "nat \<Rightarrow> transContext"
  fresh :: nat
  stmtCtx :: "dbh \<Rightarrow> ctx option"
  trace :: "event list"

fun GetTransDB :: "transContextRef \<Rightarrow> dbh result" where
  "GetTransDB NilRef = Panics nilPointerDereference"
| "GetTransDB (Ref a p d) = Returns d"

fun InTransaction_tc :: "state \<Rightarrow> transContextRef \<Rightarrow> bool" where
  "InTransaction_tc s NilRef = False"
| "InTransaction_tc s (Ref a p d) =
     (if p \<noteq> NilRef then InTransaction_tc s p else \<not> done_flag (mem s a))"

text \<open>\<^verbatim>\<open>Start\<close> allocates a node: every field zero but \<^verbatim>\<open>parent\<close>, \<^verbatim>\<open>db\<close>, \<^verbatim>\<open>panicked\<close>.\<close>

definition Start :: "transContextRef \<Rightarrow> dbh \<Rightarrow> state \<Rightarrow> transContextRef \<times> state" where
  "Start t d s =
     (Ref (fresh s) t d,
      s\<lparr>mem := (mem s)(fresh s :=
           \<lparr>onCommittedCallbacks = [], onRollbackedCallbacks = [],
            done_flag = False, panicked = True, err = None\<rparr>),
        fresh := Suc (fresh s)\<rparr>)"

fun isCommitted :: "state \<Rightarrow> transContextRef \<Rightarrow> bool" where
  "isCommitted s NilRef = True"
| "isCommitted s (Ref a p d) =
     (if panicked (mem s a) \<or> err (mem s a) \<noteq> None then False else isCommitted s p)"

fun isRollbacked :: "state \<Rightarrow> transContextRef \<Rightarrow> error option" where
  "isRollbacked s NilRef = None"
| "isRollbacked s (Ref a p d) =
     (if err (mem s a) \<noteq> None then err (mem s a) else isRollbacked s p)"

section \<open>The manager (package transaction, manager.go)\<close>

type_synonym env = "transContextRef \<times> ctx"

type_synonym bindF = "(ctx \<Rightarrow> state \<Rightarrow> state) option"

type_synonym txCallback =
  "dbh \<Rightarrow> bindF \<Rightarrow> env \<Rightarrow> state \<Rightarrow> error option result \<times> env \<times> state"

text \<open>
  The three functions given to \<^verbatim>\<open>NewManager\<close>. \<^verbatim>\<open>lookupDB\<close> returns an
  \<^verbatim>\<open>interface{}\<close>: \<open>None\<close> is the nil interface, \<open>Some d\<close> holds the handle \<open>d\<close>;
  like any function of the provider it may panic. The closure that \<^verbatim>\<open>Transaction\<close>
  hands to \<^verbatim>\<open>transaction\<close> assigns two variables of the enclosing call
  (\<^verbatim>\<open>transCtx\<close> and \<^verbatim>\<open>ctx\<close>); their values (\<open>env\<close>) are threaded through the
  provider's function, which passes them to the closure and returns what the closure left.
\<close>

record manager =
  ctxKeyF :: "ctx \<Rightarrow> string"
  lookupDB :: "ctx \<Rightarrow> dbh option result"
  transaction :: "ctx \<Rightarrow> dbh \<Rightarrow> txCallback \<Rightarrow> env \<Rightarrow> state \<Rightarrow> error option result \<times> env \<times> state"

definition NewManager ::
  "(ctx \<Rightarrow> string) \<Rightarrow> (ctx \<Rightarrow> dbh option result)
     \<Rightarrow> (ctx \<Rightarrow> dbh \<Rightarrow> txCallback \<Rightarrow> env \<Rightarrow> state \<Rightarrow> error option result \<times> env \<times> state)
     \<Rightarrow> manager" where
  "NewManager ctxKeyF' lookupDB' transaction' =
     \<lparr>ctxKeyF = ctxKeyF', lookupDB = lookupDB', transaction = transaction'\<rparr>"

definition findTransContext :: "manager \<Rightarrow> ctx \<Rightarrow> transContextRef" where
  "findTransContext m ctx =
     (case map_of ctx (ctxKeyF m ctx) of None \<Rightarrow> NilRef | Some tc \<Rightarrow> tc)"

definition InTransaction :: "manager \<Rightarrow> ctx \<Rightarrow> state \<Rightarrow> bool" where
  "InTransaction m ctx s = InTransaction_tc s (findTransContext m ctx)"

definition setTransContext :: "manager \<Rightarrow> ctx \<Rightarrow> transContextRef \<Rightarrow> ctx" where
  "setTransContext m ctx tc = (ctxKeyF m ctx, tc) # ctx"

definition cleanTransContext :: "manager \<Rightarrow> ctx \<Rightarrow> state \<Rightarrow> ctx" where
  "cleanTransContext m ctx s =
     (if \<not> InTransaction_tc s (findTransContext m ctx) then ctx
      else (ctxKeyF m ctx, NilRef) # ctx)"

text \<open>
  The node's \<^verbatim>\<open>OnCommitted\<close> and \<^verbatim>\<open>OnRollbacked\<close>. On a nil receiver both read
  \<^verbatim>\<open>t.parent\<close> and panic. A non-root node forwards to its parent: \<^verbatim>\<open>OnCommitted\<close>
  forwards its wrapper \<^verbatim>\<open>callbackFunc\<close>, \<^verbatim>\<open>OnRollbacked\<close> forwards the
  \<^verbatim>\<open>callback\<close> it was given.
\<close>

fun OnCommitted_tc :: "transContextRef \<Rightarrow> callback \<Rightarrow> state \<Rightarrow> unit result \<times> state" where
  "OnCommitted_tc NilRef cb s = (Panics nilPointerDereference, s)"
| "OnCommitted_tc (Ref a p d) cb s =
     (let callbackFunc = IfCommitted (Ref a p d) cb
      in if p = NilRef
         then (Returns (),
               s\<lparr>mem := (mem s)(a := (mem s a)
                    \<lparr>onCommittedCallbacks := onCommittedCallbacks (mem s a) @ [callbackFunc]\<rparr>)\<rparr>)
         else OnCommitted_tc p callbackFunc s)"

fun OnRollbacked_tc :: "transContextRef \<Rightarrow> errCallback \<Rightarrow> state \<Rightarrow> unit result \<times> state" where
  "OnRollbacked_tc NilRef cb s = (Panics nilPointerDereference, s)"
| "OnRollbacked_tc (Ref a p d) cb s =
     (let callbackFunc = IfRollbacked (Ref a p d) cb
      in if p = NilRef
         then (Returns (),
               s\<lparr>mem := (mem s)(a := (mem s a)
                    \<lparr>onRollbackedCallbacks := onRollbackedCallbacks (mem s a) @ [callbackFunc]\<rparr>)\<rparr>)
         else OnRollbacked_tc p cb s)"

text \<open>The manager's \<^verbatim>\<open>OnCommitted\<close> and \<^verbatim>\<open>OnRollbacked\<close>.\<close>

definition OnCommitted :: "manager \<Rightarrow> ctx \<Rightarrow> userCallback \<Rightarrow> state \<Rightarrow> bool result \<times> state" where
  "OnCommitted m ctx c s =
     (let transCtx = findTransContext m ctx
      in if \<not> InTransaction_tc s transCtx then (Returns False, s)
         else (case OnCommitted_tc transCtx (ManagerOnCommitted c ctx) s of
                 (Panics x, s') \<Rightarrow> (Panics x, s')
               | (Returns u, s') \<Rightarrow> (Returns True, s')))"

definition OnRollbacked :: "manager \<Rightarrow> ctx \<Rightarrow> userCallback \<Rightarrow> state \<Rightarrow> bool result \<times> state" where
  "OnRollbacked m ctx c s =
     (let transCtx = findTransContext m ctx
      in if transCtx = NilRef then (Returns False, s)
         else (case OnRollbacked_tc transCtx (ManagerOnRollbacked c ctx) s of
                 (Panics x, s') \<Rightarrow> (Panics x, s')
               | (Returns u, s') \<Rightarrow> (Returns True, s')))"

text \<open>
  A user callback at work, once it has been called with \<open>given\<close>; \<open>captured\<close> is the
  context it was registered with.
\<close>

primrec invoke :: "manager \<Rightarrow> behaviour \<Rightarrow> ctx \<Rightarrow> ctx \<Rightarrow> state \<Rightarrow> unit result \<times> state" where
  "invoke m ThenReturn captured given s = (Returns (), s)"
| "invoke m (ThenPanic x) captured given s = (Panics x, s)"
| "invoke m (RegisterCommitted tg c b k) captured given s =
     (case OnCommitted m (case tg of Given \<Rightarrow> given | Captured \<Rightarrow> captured)
             (UserCallback c b) s of
        (Panics x, s') \<Rightarrow> (Panics x, s')
      | (Returns r, s') \<Rightarrow> invoke m k captured given s')"
| "invoke m (RegisterRollbacked tg c b k) captured given s =
     (case OnRollbacked m (case tg of Given \<Rightarrow> given | Captured \<Rightarrow> captured)
             (UserCallback c b) s of
        (Panics x, s') \<Rightarrow> (Panics x, s')
      | (Returns r, s') \<Rightarrow> invoke m k captured given s')"

text \<open>
  Calling a stored closure. The closure built by the manager calls the user callback with
  the cleaned context (and the error); the call is recorded in the trace with its
  arguments, then the callback does what its behaviour says.
\<close>

fun call_err :: "manager \<Rightarrow> errCallback \<Rightarrow> error \<Rightarrow> state \<Rightarrow> unit result \<times> state" where
  "call_err m (ManagerOnRollbacked c ctx) e s =
     (let given = cleanTransContext m ctx s
      in invoke m (userBehaviour c) ctx given
           (s\<lparr>trace := trace s @ [RollbackedCalled (userName c) given e]\<rparr>))"

fun call :: "manager \<Rightarrow> callback \<Rightarrow> state \<Rightarrow> unit result \<times> state" where
  "call m (ManagerOnCommitted c ctx) s =
     (let given = cleanTransContext m ctx s
      in invoke m (userBehaviour c) ctx given
           (s\<lparr>trace := trace s @ [CommittedCalled (userName c) given]\<rparr>))"
| "call m (IfCommitted t cb) s = (if isCommitted s t then call m cb s else (Returns (), s))"
| "call m (IfRollbacked t cb) s =
     (case isRollbacked s t of None \<Rightarrow> (Returns (), s) | Some e \<Rightarrow> call_err m cb e s)"

text \<open>
  \<^verbatim>\<open>for _, callback := range callbacks { callback() }\<close>: a panic of a closure ends the
  loop.
\<close>

fun callEach :: "manager \<Rightarrow> callback list \<Rightarrow> state \<Rightarrow> unit result \<times> state" where
  "callEach m [] s = (Returns (), s)"
| "callEach m (cb # cbs) s =
     (case call m cb s of
        (Panics x, s') \<Rightarrow> (Panics x, s')
      | (Returns u, s') \<Rightarrow> callEach m cbs s')"

text \<open>
  The two cascades copy the registry, then call each copied closure in order. The registry
  itself is not assigned.
\<close>

definition doOnCommittedCallbacks :: "manager \<Rightarrow> nat \<Rightarrow> state \<Rightarrow> unit result \<times> state" where
  "doOnCommittedCallbacks m a s =
     (let callbacks = onCommittedCallbacks (mem s a)
      in callEach m callbacks s)"

definition doOnRollbackedCallbacks :: "manager \<Rightarrow> nat \<Rightarrow> state \<Rightarrow> unit result \<times> state" where
  "doOnRollbackedCallbacks m a s =
     (let callbacks = onRollbackedCallbacks (mem s a)
      in callEach m callbacks s)"

fun End_tc ::
  "manager \<Rightarrow> transContextRef \<Rightarrow> bool \<Rightarrow> error option \<Rightarrow> state \<Rightarrow> unit result \<times> state" where
  "End_tc m NilRef pk e s = (Returns (), s)"
| "End_tc m (Ref a p d) pk e s =
     (let s1 = s\<lparr>mem := (mem s)(a := (mem s a)\<lparr>panicked := pk, err := e\<rparr>)\<rparr>
      in if p \<noteq> NilRef then (Returns (), s1)
         else (case doOnCommittedCallbacks m a s1 of
                 (Panics x, s2) \<Rightarrow> (Panics x, s2)
               | (Returns u, s2) \<Rightarrow> doOnRollbackedCallbacks m a s2))"

definition findDBAndTransContext ::
  "manager \<Rightarrow> ctx \<Rightarrow> state \<Rightarrow> (transContextRef \<times> dbh) result" where
  "findDBAndTransContext m ctx s =
     (let tc = findTransContext m ctx
      in if InTransaction_tc s tc
         then (case GetTransDB tc of Panics x \<Rightarrow> Panics x | Returns d \<Rightarrow> Returns (tc, d))
         else (case lookupDB m ctx of
                 Panics x \<Rightarrow> Panics x
               | Returns None \<Rightarrow> Panics (PanicValue ''matching database not found'')
               | Returns (Some d) \<Rightarrow> Returns (NilRef, d)))"

text \<open>\<^verbatim>\<open>err, ok := e.(error); if !ok { err = fmt.Errorf("panic: %v", e) }\<close>\<close>

fun toError :: "payload \<Rightarrow> error" where
  "toError (PanicError e) = e"
| "toError (PanicValue v) = Error (''panic: '' @ v)"

text \<open>
  The deferred function of \<^verbatim>\<open>Transaction\<close>, run when the call returns \<open>r\<close> or
  panics. \<^verbatim>\<open>recover()\<close> is nil when the call is returning. When \<^verbatim>\<open>End(true, err)\<close>
  panics, that panic leaves the deferred function in place of the recovered one.
\<close>

definition Transaction_deferred ::
  "manager \<Rightarrow> transContextRef \<Rightarrow> error option result \<Rightarrow> state \<Rightarrow> error option result \<times> state" where
  "Transaction_deferred m transCtx r s =
     (case transCtx of
        NilRef \<Rightarrow> (r, s)
      | Ref a p d \<Rightarrow>
          (let s1 = s\<lparr>mem := (mem s)(a := (mem s a)\<lparr>done_flag := True\<rparr>)\<rparr>
           in if length (onRollbackedCallbacks (mem s1 a)) \<le> 0 then (r, s1)
              else (case r of
                      Returns e \<Rightarrow> (r, s1)
                    | Panics x \<Rightarrow>
                        (case End_tc m transCtx True (Some (toError x)) s1 of
                           (Panics y, s2) \<Rightarrow> (Panics y, s2)
                         | (Returns u, s2) \<Rightarrow> (Panics x, s2)))))"

text \<open>
  The end of \<^verbatim>\<open>Transaction\<close>, once \<^verbatim>\<open>m.transaction\<close> has returned \<open>r\<close> or
  panicked: \<^verbatim>\<open>transCtx.End(false, err); return err\<close>, then the deferred function. A
  panic of \<^verbatim>\<open>End(false, err)\<close> reaches the deferred function like any other.
\<close>

definition Transaction_finish ::
  "manager \<Rightarrow> transContextRef \<Rightarrow> error option result \<Rightarrow> state \<Rightarrow> error option result \<times> state" where
  "Transaction_finish m transCtx r s =
     (case r of
        Panics x \<Rightarrow> Transaction_deferred m transCtx (Panics x) s
      | Returns e \<Rightarrow>
          (case End_tc m transCtx False e s of
             (Panics x, s1) \<Rightarrow> Transaction_deferred m transCtx (Panics x) s1
           | (Returns u, s1) \<Rightarrow> Transaction_deferred m transCtx (Returns e) s1))"

definition Transaction ::
  "manager \<Rightarrow> ctx \<Rightarrow> (ctx \<Rightarrow> state \<Rightarrow> error option result \<times> state) \<Rightarrow> state
     \<Rightarrow> error option result \<times> state" where
  "Transaction m ctx callback s =
     (case findDBAndTransContext m ctx s of
        Panics x \<Rightarrow> Transaction_deferred m NilRef (Panics x) s
      | Returns (prevTransCtx, db) \<Rightarrow>
          (case transaction m ctx db
                  (\<lambda>db' bindCtx (transCtx0, ctx0) s0.
                      (let (transCtx1, s1) = Start prevTransCtx db' s0;
                           ctx1 = setTransContext m ctx0 transCtx1;
                           s2 = (case bindCtx of None \<Rightarrow> s1 | Some b \<Rightarrow> b ctx1 s1);
                           (r, s3) = callback ctx1 s2
                       in (r, (transCtx1, ctx1), s3)))
                  (NilRef, ctx) s of
             (r, (transCtx, ctx'), s') \<Rightarrow> Transaction_finish m transCtx r s'))"

definition MustTransaction ::
  "manager \<Rightarrow> ctx \<Rightarrow> (ctx \<Rightarrow> state \<Rightarrow> unit result \<times> state) \<Rightarrow> state \<Rightarrow> unit result \<times> state" where
  "MustTransaction m ctx callback s =
     (case Transaction m ctx
             (\<lambda>c s0. case callback c s0 of
                        (Returns u, s1) \<Rightarrow> (Returns None, s1)
                      | (Panics x, s1) \<Rightarrow> (Panics x, s1)) s of
        (Returns None, s') \<Rightarrow> (Returns (), s')
      | (Returns (Some e), s') \<Rightarrow> (Panics (PanicError e), s')
      | (Panics x, s') \<Rightarrow> (Panics x, s'))"

definition EscapeTransaction ::
  "manager \<Rightarrow> ctx \<Rightarrow> (ctx \<Rightarrow> state \<Rightarrow> error option result \<times> state) \<Rightarrow> state
     \<Rightarrow> error option result \<times> state" where
  "EscapeTransaction m ctx callback s = callback (cleanTransContext m ctx s) s"

section \<open>The gorm provider (package db)\<close>

text \<open>
  \<^verbatim>\<open>(*gorm.DB).Transaction\<close> belongs to the gorm library, not to the repository. It is
  taken by its contract: Begin; if Begin fails, return its error without calling \<open>fc\<close>;
  call \<open>fc\<close> with the transaction's handle; if \<open>fc\<close> returns an error or panics, roll
  back and pass the error or the panic on; otherwise return what Commit returns. The
  results of Begin and Commit and the handle of the transaction are parameters.
\<close>

record gorm =
  beginErr :: "dbh \<Rightarrow> error option"
  commitErr :: "dbh \<Rightarrow> error option"
  txOf :: "dbh \<Rightarrow> dbh"

definition gormTransaction ::
  "gorm \<Rightarrow> dbh \<Rightarrow> (dbh \<Rightarrow> env \<Rightarrow> state \<Rightarrow> error option result \<times> env \<times> state)
     \<Rightarrow> env \<Rightarrow> state \<Rightarrow> error option result \<times> env \<times> state" where
  "gormTransaction g d fc en s =
     (case beginErr g d of
        Some e \<Rightarrow> (Returns (Some e), en, s)
      | None \<Rightarrow>
          (case fc (txOf g d) en s of
             (Returns None, en', s') \<Rightarrow> (Returns (commitErr g d), en', s')
           | (Returns (Some e), en', s') \<Rightarrow> (Returns (Some e), en', s')
           | (Panics x, en', s') \<Rightarrow> (Panics x, en', s')))"

text \<open>
  \<^verbatim>\<open>TransProvider\<close> with its \<^verbatim>\<open>Source\<close>. The functions of the source return a
  \<^verbatim>\<open>*gorm.DB\<close> that may be nil (\<open>None\<close>). \<^verbatim>\<open>clausesWrite\<close> stands for gorm's
  \<^verbatim>\<open>.Clauses(dbresolver.Write)\<close>, which returns a new handle.
\<close>

record transProvider =
  getWriteDBName :: "ctx \<Rightarrow> string"
  getWriteDB :: "ctx \<Rightarrow> dbh option"
  getReadDB :: "ctx \<Rightarrow> dbh option"
  clausesWrite :: "dbh \<Rightarrow> dbh"
  txSuffix :: string
  gormLib :: gorm

definition getCtxKey :: "transProvider \<Rightarrow> ctx \<Rightarrow> string" where
  "getCtxKey p ctx = getWriteDBName p ctx @ ''.'' @ txSuffix p"

text \<open>
  \<^verbatim>\<open>lookupDB\<close>. Calling \<^verbatim>\<open>.Clauses\<close> on a nil \<^verbatim>\<open>*gorm.DB\<close> dereferences it and
  panics; on a handle it returns a handle, so with \<open>write\<close> the pointer returned is
  never nil.
\<close>

definition lookupDB_p :: "transProvider \<Rightarrow> ctx \<Rightarrow> bool \<Rightarrow> dbh option result" where
  "lookupDB_p p ctx write =
     (if write
      then (case getWriteDB p ctx of
              None \<Rightarrow> Panics nilPointerDereference
            | Some d \<Rightarrow> Returns (Some (clausesWrite p d)))
      else Returns (getReadDB p ctx))"

definition isInTransaction :: "transProvider \<Rightarrow> ctx \<Rightarrow> state \<Rightarrow> bool" where
  "isInTransaction p ctx s =
     (case map_of ctx (getCtxKey p ctx) of
        None \<Rightarrow> False
      | Some tc \<Rightarrow> tc \<noteq> NilRef \<and> InTransaction_tc s tc)"

definition findTransDB :: "transProvider \<Rightarrow> ctx \<Rightarrow> state \<Rightarrow> dbh option" where
  "findTransDB p ctx s =
     (case map_of ctx (getCtxKey p ctx) of
        None \<Rightarrow> None
      | Some tc \<Rightarrow>
          (if tc \<noteq> NilRef \<and> InTransaction_tc s tc
           then (case GetTransDB tc of Returns d \<Rightarrow> Some d | Panics x \<Rightarrow> None)
           else None))"

text \<open>\<^verbatim>\<open>func(ctx) { db.Statement.Context = ctx }\<close>\<close>

definition bindStatement :: "dbh \<Rightarrow> ctx \<Rightarrow> state \<Rightarrow> state" where
  "bindStatement d c s = s\<lparr>stmtCtx := (stmtCtx s)(d := Some c)\<rparr>"

definition transaction_p ::
  "transProvider \<Rightarrow> ctx \<Rightarrow> dbh \<Rightarrow> txCallback \<Rightarrow> env \<Rightarrow> state
     \<Rightarrow> error option result \<times> env \<times> state" where
  "transaction_p p ctx d callback en s =
     (if isInTransaction p ctx s then callback d (Some (bindStatement d)) en s
      else gormTransaction (gormLib p) d
             (\<lambda>tx. callback tx (Some (bindStatement tx))) en s)"

text \<open>
  \<^verbatim>\<open>NewProvider\<close>, as far as the manager goes. Its \<^verbatim>\<open>lookupDB\<close> closure returns the
  pointer it gets from \<^verbatim>\<open>p.lookupDB(ctx, true)\<close> as an \<^verbatim>\<open>interface{}\<close>; that
  pointer is a handle, so the interface is never nil.
\<close>

definition NewProvider :: "transProvider \<Rightarrow> manager" where
  "NewProvider p =
     NewManager (getCtxKey p) (\<lambda>ctx. lookupDB_p p ctx True) (transaction_p p)"

section \<open>Transaction callbacks\<close>

text \<open>
  The callbacks a caller passes to \<^verbatim>\<open>Transaction\<close>, as programs over the manager's
  interface, each acting on the context the callback received: return an error or nil,
  panic, register a commit or a rollback callback and go on, ask \<^verbatim>\<open>InTransaction\<close>
  and go on (the answer is recorded in the trace), or call \<^verbatim>\<open>Transaction\<close> again (a
  nested call) and go on with a program chosen from the error it returned. A panic is not
  recovered by a callback. The callback registered by \<open>RegCommitted\<close> or
  \<open>RegRollbacked\<close> returns when it is called; \<open>RegCommittedWith\<close> registers a commit
  callback with a behaviour of its own.
\<close>

datatype prog =
    Return "error option"
  | Panic payload
  | RegCommitted nat prog
  | RegRollbacked nat prog
  | RegCommittedWith nat behaviour prog
  | Observe prog
  | Nested prog "error option \<Rightarrow> prog"

primrec run :: "manager \<Rightarrow> prog \<Rightarrow> ctx \<Rightarrow> state \<Rightarrow> error option result \<times> state" where
  "run m (Return e) = (\<lambda>ctx s. (Returns e, s))"
| "run m (Panic x) = (\<lambda>ctx s. (Panics x, s))"
| "run m (RegCommitted c p) =
     (\<lambda>ctx s. case OnCommitted m ctx (UserCallback c ThenReturn) s of
                (Panics x, s') \<Rightarrow> (Panics x, s')
              | (Returns b, s') \<Rightarrow> run m p ctx s')"
| "run m (RegRollbacked c p) =
     (\<lambda>ctx s. case OnRollbacked m ctx (UserCallback c ThenReturn) s of
                (Panics x, s') \<Rightarrow> (Panics x, s')
              | (Returns b, s') \<Rightarrow> run m p ctx s')"
| "run m (RegCommittedWith c b p) =
     (\<lambda>ctx s. case OnCommitted m ctx (UserCallback c b) s of
                (Panics x, s') \<Rightarrow> (Panics x, s')
              | (Returns r, s') \<Rightarrow> run m p ctx s')"
| "run m (Observe p) =
     (\<lambda>ctx s. run m p ctx (s\<lparr>trace := trace s @ [Observed ctx (InTransaction m ctx s)]\<rparr>))"
| "run m (Nested p k) =
     (\<lambda>ctx s. case Transaction m ctx (run m p) s of
                (Panics x, s') \<Rightarrow> (Panics x, s')
              | (Returns e, s') \<Rightarrow> run m (k e) ctx s')"

section \<open>Notions used to state and prove the properties\<close>

subsection \<open>Nodes and the store\<close>

text \<open>
  The address of the root of a node's parent chain, the root itself, and the addresses of
  the chain. \<^verbatim>\<open>InTransaction\<close>, \<^verbatim>\<open>isCommitted\<close> and \<^verbatim>\<open>isRollbacked\<close> walk this
  chain.
\<close>

fun rootCell :: "transContextRef \<Rightarrow> nat" where
  "rootCell NilRef = 0"
| "rootCell (Ref a p d) = (if p = NilRef then a else rootCell p)"

fun rootOf :: "transContextRef \<Rightarrow> transContextRef" where
  "rootOf NilRef = NilRef"
| "rootOf (Ref a p d) = (if p = NilRef then Ref a p d else rootOf p)"

fun cells :: "transContextRef \<Rightarrow> nat set" where
  "cells NilRef = {}"
| "cells (Ref a p d) = insert a (cells p)"

text \<open>A node that has ended with no panic and no error.\<close>

definition good :: "state \<Rightarrow> nat \<Rightarrow> bool" where
  "good s a = (\<not> panicked (mem s a) \<and> err (mem s a) = None)"

text \<open>
  The key function is a parameter of \<^verbatim>\<open>NewManager\<close>. The manager looks a node up
  under the key of the context at hand, so a context derived by the manager has to get
  the key of the context it was derived from.
\<close>

definition keyStable :: "manager \<Rightarrow> bool" where
  "keyStable m = (\<forall>ctx t. ctxKeyF m ((ctxKeyF m ctx, t) # ctx) = ctxKeyF m ctx)"

text \<open>
  The node a \<^verbatim>\<open>Transaction\<close> call creates under \<open>prev\<close> with handle \<open>d\<close>, and the
  context and the store its callback starts with (after \<^verbatim>\<open>Start\<close>,
  \<^verbatim>\<open>setTransContext\<close> and the provider's \<^verbatim>\<open>bindCtx\<close>).
\<close>

definition childRef :: "transContextRef \<Rightarrow> dbh \<Rightarrow> state \<Rightarrow> transContextRef" where
  "childRef prev d s = Ref (fresh s) prev d"

definition childCtx :: "manager \<Rightarrow> ctx \<Rightarrow> transContextRef \<Rightarrow> dbh \<Rightarrow> state \<Rightarrow> ctx" where
  "childCtx m ctx prev d s = setTransContext m ctx (childRef prev d s)"

definition childState :: "manager \<Rightarrow> ctx \<Rightarrow> transContextRef \<Rightarrow> dbh \<Rightarrow> state \<Rightarrow> state" where
  "childState m ctx prev d s = bindStatement d (childCtx m ctx prev d s) (snd (Start prev d s))"

subsection \<open>Stored closures\<close>

text \<open>
  The closure a registration on node \<open>t\<close> leaves in the root's commit registry: one
  \<^verbatim>\<open>callbackFunc\<close> wrapper for every node from \<open>t\<close> up to the root, the root's
  outermost. Of a stored closure: the addresses its tests read, the user callback it ends
  in and the context that callback was registered with, and whether it is a commit
  closure.
\<close>

fun wrapCommitted :: "transContextRef \<Rightarrow> callback \<Rightarrow> callback" where
  "wrapCommitted NilRef cb = cb"
| "wrapCommitted (Ref a p d) cb = wrapCommitted p (IfCommitted (Ref a p d) cb)"

fun guardCells :: "callback \<Rightarrow> nat set" where
  "guardCells (ManagerOnCommitted c cx) = {}"
| "guardCells (IfCommitted t cb) = cells t \<union> guardCells cb"
| "guardCells (IfRollbacked t cb) = cells t"

fun userCallbackOf :: "callback \<Rightarrow> userCallback" where
  "userCallbackOf (ManagerOnCommitted c cx) = c"
| "userCallbackOf (IfCommitted t cb) = userCallbackOf cb"
| "userCallbackOf (IfRollbacked t (ManagerOnRollbacked c cx)) = c"

fun userId :: "callback \<Rightarrow> nat" where
  "userId (ManagerOnCommitted c cx) = userName c"
| "userId (IfCommitted t cb) = userId cb"
| "userId (IfRollbacked t (ManagerOnRollbacked c cx)) = userName c"


fun isCommitCb :: "callback \<Rightarrow> bool" where
  "isCommitCb (ManagerOnCommitted c cx) = True"
| "isCommitCb (IfCommitted t cb) = isCommitCb cb"
| "isCommitCb (IfRollbacked t cb) = False"

text \<open>A behaviour that ends by returning: the callback does not panic.\<close>

primrec returns :: "behaviour \<Rightarrow> bool" where
  "returns ThenReturn = True"
| "returns (ThenPanic x) = False"
| "returns (RegisterCommitted tg c b k) = returns k"
| "returns (RegisterRollbacked tg c b k) = returns k"

text \<open>
  \<open>appended s s'\<close>: from \<open>s\<close> to \<open>s'\<close> no node was allocated, no node has changed
  \<^verbatim>\<open>done\<close>, \<^verbatim>\<open>panicked\<close> or \<^verbatim>\<open>err\<close>, and every registry has kept its closures,
  in order, and has at most gained closures at its end: commit closures that test the
  node of the registry, rollback closures that test that node as a root.
\<close>

definition appended :: "state \<Rightarrow> state \<Rightarrow> bool" where
  "appended s s' =
     (fresh s' = fresh s
    \<and> (\<forall>a. done_flag (mem s' a) = done_flag (mem s a)
           \<and> panicked (mem s' a) = panicked (mem s a)
           \<and> err (mem s' a) = err (mem s a)
           \<and> (\<exists>cs. onCommittedCallbacks (mem s' a) = onCommittedCallbacks (mem s a) @ cs
                  \<and> (\<forall>cb\<in>set cs. isCommitCb cb \<and> a \<in> guardCells cb))
           \<and> (\<exists>rs. onRollbackedCallbacks (mem s' a) = onRollbackedCallbacks (mem s a) @ rs
                  \<and> (\<forall>cb\<in>set rs. \<exists>d ecb. cb = IfRollbacked (Ref a NilRef d) ecb))))"

text \<open>\<open>keeps s s'\<close>: every registry of \<open>s\<close> is, in \<open>s'\<close>, what it was or longer.\<close>

definition keeps :: "state \<Rightarrow> state \<Rightarrow> bool" where
  "keeps s s' =
     (\<forall>a. prefix (onCommittedCallbacks (mem s a)) (onCommittedCallbacks (mem s' a))
        \<and> prefix (onRollbackedCallbacks (mem s a)) (onRollbackedCallbacks (mem s' a)))"

subsection \<open>The trace\<close>

text \<open>
  The commit callbacks called, the rollback callbacks called with the error each received,
  and the answers to \<^verbatim>\<open>InTransaction\<close>, each in order.
\<close>

fun committedCalls :: "event list \<Rightarrow> nat list" where
  "committedCalls [] = []"
| "committedCalls (CommittedCalled c cx # evs) = c # committedCalls evs"
| "committedCalls (ev # evs) = committedCalls evs"

fun rollbackedCalls :: "event list \<Rightarrow> (nat \<times> error) list" where
  "rollbackedCalls [] = []"
| "rollbackedCalls (RollbackedCalled c cx e # evs) = (c, e) # rollbackedCalls evs"
| "rollbackedCalls (ev # evs) = rollbackedCalls evs"

fun observations :: "event list \<Rightarrow> (ctx \<times> bool) list" where
  "observations [] = []"
| "observations (Observed cx b # evs) = (cx, b) # observations evs"
| "observations (ev # evs) = observations evs"

subsection \<open>Callback programs\<close>

text \<open>
  Inside a transaction a nested call returns what its callback returns, so what a
  callback program returns or panics with is read off the program; so are the commit and
  the rollback callbacks it registers on its way, nested calls included, in order.
  \<open>allReturnNil\<close>: the callback and every nested callback return nil.
  \<open>commitCallbacksReturn\<close>: none of the commit callbacks the program registers panics
  when it is called.
\<close>

primrec outcome :: "prog \<Rightarrow> error option result" where
  "outcome (Return e) = Returns e"
| "outcome (Panic x) = Panics x"
| "outcome (RegCommitted c p) = outcome p"
| "outcome (RegRollbacked c p) = outcome p"
| "outcome (RegCommittedWith c b p) = outcome p"
| "outcome (Observe p) = outcome p"
| "outcome (Nested p k) = (case outcome p of Returns e \<Rightarrow> outcome (k e) | Panics x \<Rightarrow> Panics x)"

primrec registeredCommitted :: "prog \<Rightarrow> nat list" where
  "registeredCommitted (Return e) = []"
| "registeredCommitted (Panic x) = []"
| "registeredCommitted (RegCommitted c p) = c # registeredCommitted p"
| "registeredCommitted (RegRollbacked c p) = registeredCommitted p"
| "registeredCommitted (RegCommittedWith c b p) = c # registeredCommitted p"
| "registeredCommitted (Observe p) = registeredCommitted p"
| "registeredCommitted (Nested p k) =
     registeredCommitted p @
     (case outcome p of Returns e \<Rightarrow> registeredCommitted (k e) | Panics x \<Rightarrow> [])"

primrec registeredRollbacked :: "prog \<Rightarrow> nat list" where
  "registeredRollbacked (Return e) = []"
| "registeredRollbacked (Panic x) = []"
| "registeredRollbacked (RegCommitted c p) = registeredRollbacked p"
| "registeredRollbacked (RegRollbacked c p) = c # registeredRollbacked p"
| "registeredRollbacked (RegCommittedWith c b p) = registeredRollbacked p"
| "registeredRollbacked (Observe p) = registeredRollbacked p"
| "registeredRollbacked (Nested p k) =
     registeredRollbacked p @
     (case outcome p of Returns e \<Rightarrow> registeredRollbacked (k e) | Panics x \<Rightarrow> [])"

primrec allReturnNil :: "prog \<Rightarrow> bool" where
  "allReturnNil (Return e) = (e = None)"
| "allReturnNil (Panic x) = False"
| "allReturnNil (RegCommitted c p) = allReturnNil p"
| "allReturnNil (RegRollbacked c p) = allReturnNil p"
| "allReturnNil (RegCommittedWith c b p) = allReturnNil p"
| "allReturnNil (Observe p) = allReturnNil p"
| "allReturnNil (Nested p k) = (allReturnNil p \<and> allReturnNil (k None))"

primrec committedCallbacks :: "prog \<Rightarrow> userCallback list" where
  "committedCallbacks (Return e) = []"
| "committedCallbacks (Panic x) = []"
| "committedCallbacks (RegCommitted c p) = UserCallback c ThenReturn # committedCallbacks p"
| "committedCallbacks (RegRollbacked c p) = committedCallbacks p"
| "committedCallbacks (RegCommittedWith c b p) = UserCallback c b # committedCallbacks p"
| "committedCallbacks (Observe p) = committedCallbacks p"
| "committedCallbacks (Nested p k) =
     committedCallbacks p @
     (case outcome p of Returns e \<Rightarrow> committedCallbacks (k e) | Panics x \<Rightarrow> [])"


subsection \<open>What a callback does to the store\<close>

text \<open>
  \<open>grow m t s s' cs rids\<close> relates the store before and after a callback that runs on
  a context holding node \<open>t\<close>: nodes are only added; of the nodes that existed only the
  root is touched; the root keeps \<^verbatim>\<open>done\<close>, \<^verbatim>\<open>panicked\<close> and \<^verbatim>\<open>err\<close>; its
  registries gain the closures of the commit callbacks \<open>cs\<close> and of the rollback
  callbacks \<open>rids\<close>; the commit closures test the root and otherwise only nodes of
  \<open>t\<close>'s chain or new ones, the rollback closures test the root and hold a callback
  that returns; and the trace gains only answers \<open>True\<close> to \<^verbatim>\<open>InTransaction\<close>, on
  contexts of this transaction.
\<close>

definition seenInside :: "manager \<Rightarrow> nat \<Rightarrow> event \<Rightarrow> bool" where
  "seenInside m r ev =
     (\<exists>cx. ev = Observed cx True \<and> findTransContext m cx \<noteq> NilRef
          \<and> rootCell (findTransContext m cx) = r)"

definition grow ::
  "manager \<Rightarrow> transContextRef \<Rightarrow> state \<Rightarrow> state \<Rightarrow> userCallback list \<Rightarrow> nat list \<Rightarrow> bool" where
  "grow m t s s' ucs rids =
     (fresh s \<le> fresh s'
    \<and> (\<forall>a. a < fresh s \<longrightarrow> a \<noteq> rootCell t \<longrightarrow> mem s' a = mem s a)
    \<and> done_flag (mem s' (rootCell t)) = done_flag (mem s (rootCell t))
    \<and> panicked (mem s' (rootCell t)) = panicked (mem s (rootCell t))
    \<and> err (mem s' (rootCell t)) = err (mem s (rootCell t))
    \<and> (\<exists>cs. onCommittedCallbacks (mem s' (rootCell t)) =
               onCommittedCallbacks (mem s (rootCell t)) @ cs
           \<and> map userCallbackOf cs = ucs
           \<and> (\<forall>cb\<in>set cs. isCommitCb cb \<and> rootCell t \<in> guardCells cb
                  \<and> guardCells cb \<subseteq> cells t \<union> {fresh s..<fresh s'}))
    \<and> (\<exists>rs. onRollbackedCallbacks (mem s' (rootCell t)) =
               onRollbackedCallbacks (mem s (rootCell t)) @ rs
           \<and> map userId rs = rids
           \<and> (\<forall>cb\<in>set rs. \<exists>c cx.
                  cb = IfRollbacked (rootOf t) (ManagerOnRollbacked (UserCallback c ThenReturn) cx)))
    \<and> (\<exists>evs. trace s' = trace s @ evs \<and> (\<forall>ev\<in>set evs. seenInside m (rootCell t) ev)))"

section \<open>Concrete instances\<close>

text \<open>
  A provider with one database (handle 1) routed for every context, whose physical
  transactions begin and commit without error; the manager \<^verbatim>\<open>NewProvider\<close> builds for
  it; a store with no node yet; and the context and the store a callback of an outermost
  \<^verbatim>\<open>Transaction\<close> call on the empty context starts with.
\<close>

definition exampleGorm :: gorm where
  "exampleGorm = \<lparr>beginErr = (\<lambda>d. None), commitErr = (\<lambda>d. None), txOf = (\<lambda>d. d + 100)\<rparr>"

definition exampleProvider :: transProvider where
  "exampleProvider =
     \<lparr>getWriteDBName = (\<lambda>c. ''main''), getWriteDB = (\<lambda>c. Some 1),
      getReadDB = (\<lambda>c. Some 1), clausesWrite = (\<lambda>d. d), txSuffix = ''x'',
      gormLib = exampleGorm\<rparr>"

definition exampleManager :: manager where
  "exampleManager = NewProvider exampleProvider"

definition emptyState :: state where
  "emptyState =
     \<lparr>mem = (\<lambda>a. \<lparr>onCommittedCallbacks = [], onRollbackedCallbacks = [],
                   done_flag = False, panicked = False, err = None\<rparr>),
      fresh = 0, stmtCtx = (\<lambda>d. None), trace = []\<rparr>"

definition insideCtx :: ctx where
  "insideCtx = setTransContext exampleManager [] (Ref 0 NilRef 101)"

definition insideState :: state where
  "insideState = bindStatement 101 insideCtx (snd (Start NilRef 101 emptyState))"

text \<open>The two ways a caller deals with the error of a nested call.\<close>

definition ignoreError :: "error option \<Rightarrow> prog" where
  "ignoreError e = Return None"

definition passError :: "error option \<Rightarrow> prog" where
  "passError e = Return e"

definition replaceError :: "error \<Rightarrow> error option \<Rightarrow> prog" where
  "replaceError e' e = (case e of None \<Rightarrow> Return None | Some x \<Rightarrow> Return (Some e'))"

text \<open>
  A nested call registers rollback callback 7 and returns an error; the outer callback
  drops the error and returns nil (first run), or returns another error (second run).
\<close>

definition nestedErrorDropped :: "error option result \<times> state" where
  "nestedErrorDropped =
     Transaction exampleManager []
       (run exampleManager
          (Nested (RegRollbacked 7 (Return (Some (Error ''E'')))) ignoreError))
       emptyState"

definition nestedErrorReplaced :: "error option result \<times> state" where
  "nestedErrorReplaced =
     Transaction exampleManager []
       (run exampleManager
          (Nested (RegRollbacked 7 (Return (Some (Error ''E1''))))
                  (replaceError (Error ''E2''))))
       emptyState"

text \<open>An outermost call that registers commit callback 1 and rollback callback 2.\<close>

definition registersBoth :: "error option result \<times> state" where
  "registersBoth =
     Transaction exampleManager []
       (run exampleManager (RegCommitted 1 (RegRollbacked 2 (Return None))))
       emptyState"



text \<open>A provider whose physical transactions fail to begin, and one whose commits fail.\<close>

definition beginFails :: transProvider where
  "beginFails =
     exampleProvider\<lparr>gormLib := exampleGorm\<lparr>beginErr := (\<lambda>d. Some (Error ''begin''))\<rparr>\<rparr>"


text \<open>The store after an outermost call on the empty context has returned.\<close>

definition endedState :: state where
  "endedState = snd (Transaction exampleManager [] (run exampleManager (Return None)) emptyState)"

text \<open>
  A callback that registers at its own level, makes a nested call whose callback
  registers too, and returns what the nested call returned; both ask
  \<^verbatim>\<open>InTransaction\<close>. The same with a nested callback that panics.
\<close>

definition twoLevels :: prog where
  "twoLevels =
     RegCommitted 1 (RegRollbacked 4 (Observe
       (Nested (RegCommitted 2 (RegRollbacked 3 (Observe (Return None)))) passError)))"








text \<open>
  A callback that registers rollback callback 2 and a commit callback (1) which, when it
  is called, registers rollback callback 9 on the context it has captured.
\<close>

definition registersInCascade :: prog where
  "registersInCascade =
     RegCommittedWith 1 (RegisterRollbacked Captured 9 ThenReturn ThenReturn)
       (RegRollbacked 2 (Return None))"

text \<open>A manager built by \<^verbatim>\<open>NewManager\<close> whose \<^verbatim>\<open>lookupDB\<close> finds no database.\<close>

definition noDatabase :: manager where
  "noDatabase =
     NewManager (getCtxKey exampleProvider) (\<lambda>ctx. Returns None) (transaction_p exampleProvider)"
section \<open>Nodes, contexts and the store\<close>

lemma InTransaction_tc_NilRef: "InTransaction_tc s t \<Longrightarrow> t \<noteq> NilRef"
  by auto

lemma rootCell_in_cells: "t \<noteq> NilRef \<Longrightarrow> rootCell t \<in> cells t"
  by (induction t) auto

lemma rootOf_eq: "t \<noteq> NilRef \<Longrightarrow> \<exists>d. rootOf t = Ref (rootCell t) NilRef d"
  by (induction t) auto

text \<open>\<^verbatim>\<open>InTransaction\<close> reads the \<^verbatim>\<open>done\<close> flag of the root.\<close>

lemma InTransaction_tc_rootCell:
  "InTransaction_tc s t = (t \<noteq> NilRef \<and> \<not> done_flag (mem s (rootCell t)))"
  by (induction t) auto


lemma isRollbacked_trace [simp]: "isRollbacked (s\<lparr>trace := x\<rparr>) t = isRollbacked s t"
  by (induction t) auto

lemma good_trace [simp]: "good (s\<lparr>trace := x\<rparr>) a = good s a"
  by (simp add: good_def)

lemma childRef_simps:
  "t \<noteq> NilRef \<Longrightarrow> rootCell (childRef t d s) = rootCell t"
  "t \<noteq> NilRef \<Longrightarrow> rootOf (childRef t d s) = rootOf t"
  "cells (childRef t d s) = insert (fresh s) (cells t)"
  "childRef t d s \<noteq> NilRef"
  "rootCell (childRef NilRef d s) = fresh s"
  "rootOf (childRef NilRef d s) = childRef NilRef d s"
  by (simp_all add: childRef_def)

lemma childState_simps:
  "fresh (childState m ctx t d s) = Suc (fresh s)"
  "trace (childState m ctx t d s) = trace s"
  "a \<noteq> fresh s \<Longrightarrow> mem (childState m ctx t d s) a = mem s a"
  "mem (childState m ctx t d s) (fresh s) =
     \<lparr>onCommittedCallbacks = [], onRollbackedCallbacks = [],
      done_flag = False, panicked = True, err = None\<rparr>"
  by (simp_all add: childState_def bindStatement_def Start_def)

lemma findTransContext_set:
  "keyStable m \<Longrightarrow> findTransContext m (setTransContext m ctx t) = t"
  by (simp add: keyStable_def findTransContext_def setTransContext_def)

lemma NewProvider_fields:
  "ctxKeyF (NewProvider p) = getCtxKey p"
  "lookupDB (NewProvider p) = (\<lambda>ctx. lookupDB_p p ctx True)"
  "transaction (NewProvider p) = transaction_p p"
  by (simp_all add: NewProvider_def NewManager_def)

lemma exampleManager_keyStable: "keyStable exampleManager"
  by (simp add: keyStable_def exampleManager_def NewProvider_fields getCtxKey_def
      exampleProvider_def)

text \<open>
  The manager built by \<^verbatim>\<open>NewProvider\<close> never gets a nil interface from its
  \<^verbatim>\<open>lookupDB\<close>: without a write database the lookup panics.
\<close>

lemma NewProvider_lookupDB:
  "lookupDB (NewProvider p) ctx =
     (case getWriteDB p ctx of
        None \<Rightarrow> Panics nilPointerDereference
      | Some d \<Rightarrow> Returns (Some (clausesWrite p d)))"
  by (simp add: NewProvider_fields lookupDB_p_def)

lemma NewProvider_lookupDB_not_nil: "lookupDB (NewProvider p) ctx \<noteq> Returns None"
  by (simp add: NewProvider_lookupDB split: option.splits)

lemma userId_userCallbackOf: "isCommitCb cb \<Longrightarrow> userId cb = userName (userCallbackOf cb)"
  by (induction cb) auto

section \<open>Registration\<close>

text \<open>A registration appends one closure to the registry of the root.\<close>

lemma OnCommitted_tc_eq:
  "t \<noteq> NilRef \<Longrightarrow> OnCommitted_tc t cb s =
     (Returns (),
      s\<lparr>mem := (mem s)(rootCell t := (mem s (rootCell t))
           \<lparr>onCommittedCallbacks :=
              onCommittedCallbacks (mem s (rootCell t)) @ [wrapCommitted t cb]\<rparr>)\<rparr>)"
  by (induction t arbitrary: cb) (auto simp: Let_def)

lemma OnRollbacked_tc_eq:
  "t \<noteq> NilRef \<Longrightarrow> OnRollbacked_tc t cb s =
     (Returns (),
      s\<lparr>mem := (mem s)(rootCell t := (mem s (rootCell t))
           \<lparr>onRollbackedCallbacks :=
              onRollbackedCallbacks (mem s (rootCell t)) @ [IfRollbacked (rootOf t) cb]\<rparr>)\<rparr>)"
  by (induction t) (auto simp: Let_def)

lemma guardCells_wrapCommitted: "guardCells (wrapCommitted t cb) = cells t \<union> guardCells cb"
  by (induction t arbitrary: cb) auto

lemma isCommitCb_wrapCommitted: "isCommitCb (wrapCommitted t cb) = isCommitCb cb"
  by (induction t arbitrary: cb) auto

lemma userCallbackOf_wrapCommitted: "userCallbackOf (wrapCommitted t cb) = userCallbackOf cb"
  by (induction t arbitrary: cb) auto

lemma OnCommitted_eq:
  "OnCommitted m ctx c s =
     (if \<not> InTransaction_tc s (findTransContext m ctx) then (Returns False, s)
      else (Returns True,
            s\<lparr>mem := (mem s)(rootCell (findTransContext m ctx) :=
                 (mem s (rootCell (findTransContext m ctx)))
                 \<lparr>onCommittedCallbacks :=
                    onCommittedCallbacks (mem s (rootCell (findTransContext m ctx)))
                    @ [wrapCommitted (findTransContext m ctx) (ManagerOnCommitted c ctx)]\<rparr>)\<rparr>))"
  using InTransaction_tc_NilRef [of s "findTransContext m ctx"]
  by (simp add: OnCommitted_def Let_def OnCommitted_tc_eq)

lemma OnRollbacked_eq:
  "OnRollbacked m ctx c s =
     (if findTransContext m ctx = NilRef then (Returns False, s)
      else (Returns True,
            s\<lparr>mem := (mem s)(rootCell (findTransContext m ctx) :=
                 (mem s (rootCell (findTransContext m ctx)))
                 \<lparr>onRollbackedCallbacks :=
                    onRollbackedCallbacks (mem s (rootCell (findTransContext m ctx)))
                    @ [IfRollbacked (rootOf (findTransContext m ctx))
                         (ManagerOnRollbacked c ctx)]\<rparr>)\<rparr>))"
  by (simp add: OnRollbacked_def Let_def OnRollbacked_tc_eq)

text \<open>Registrations, and so the user callbacks, only append to registries.\<close>

lemma appended_refl: "appended s s"
  by (simp add: appended_def)

lemma appended_trace [simp]:
  "appended (s\<lparr>trace := x\<rparr>) s' = appended s s'" "appended s (s'\<lparr>trace := x\<rparr>) = appended s s'"
  by (simp_all add: appended_def)

lemma appended_trans:
  assumes "appended s s1" and "appended s1 s2"
  shows "appended s s2"
proof -
  have "\<exists>cs. onCommittedCallbacks (mem s2 a) = onCommittedCallbacks (mem s a) @ cs
            \<and> (\<forall>cb\<in>set cs. isCommitCb cb \<and> a \<in> guardCells cb)" for a
  proof -
    from assms(1) obtain c1 where
      1: "onCommittedCallbacks (mem s1 a) = onCommittedCallbacks (mem s a) @ c1"
         "\<forall>cb\<in>set c1. isCommitCb cb \<and> a \<in> guardCells cb"
      unfolding appended_def by blast
    from assms(2) obtain c2 where
      2: "onCommittedCallbacks (mem s2 a) = onCommittedCallbacks (mem s1 a) @ c2"
         "\<forall>cb\<in>set c2. isCommitCb cb \<and> a \<in> guardCells cb"
      unfolding appended_def by blast
    show ?thesis
      using 1 2 by (intro exI [of _ "c1 @ c2"]) auto
  qed
  moreover
  have "\<exists>rs. onRollbackedCallbacks (mem s2 a) = onRollbackedCallbacks (mem s a) @ rs
            \<and> (\<forall>cb\<in>set rs. \<exists>d ecb. cb = IfRollbacked (Ref a NilRef d) ecb)" for a
  proof -
    from assms(1) obtain r1 where
      1: "onRollbackedCallbacks (mem s1 a) = onRollbackedCallbacks (mem s a) @ r1"
         "\<forall>cb\<in>set r1. \<exists>d ecb. cb = IfRollbacked (Ref a NilRef d) ecb"
      unfolding appended_def by blast
    from assms(2) obtain r2 where
      2: "onRollbackedCallbacks (mem s2 a) = onRollbackedCallbacks (mem s1 a) @ r2"
         "\<forall>cb\<in>set r2. \<exists>d ecb. cb = IfRollbacked (Ref a NilRef d) ecb"
      unfolding appended_def by blast
    show ?thesis
      using 1 2 by (intro exI [of _ "r1 @ r2"]) auto
  qed
  moreover
  have "fresh s2 = fresh s" "done_flag (mem s2 a) = done_flag (mem s a)"
       "panicked (mem s2 a) = panicked (mem s a)" "err (mem s2 a) = err (mem s a)" for a
    using assms by (simp_all add: appended_def)
  ultimately show ?thesis
    unfolding appended_def by blast
qed


lemma appended_commit:
  assumes "t \<noteq> NilRef" and "isCommitCb cb"
  shows "appended s (s\<lparr>mem := (mem s)(rootCell t := (mem s (rootCell t))
           \<lparr>onCommittedCallbacks :=
              onCommittedCallbacks (mem s (rootCell t)) @ [wrapCommitted t cb]\<rparr>)\<rparr>)"
  using assms
  by (auto simp: appended_def isCommitCb_wrapCommitted guardCells_wrapCommitted
      rootCell_in_cells)

lemma appended_rollback:
  assumes "t \<noteq> NilRef"
  shows "appended s (s\<lparr>mem := (mem s)(rootCell t := (mem s (rootCell t))
           \<lparr>onRollbackedCallbacks :=
              onRollbackedCallbacks (mem s (rootCell t)) @ [IfRollbacked (rootOf t) cb]\<rparr>)\<rparr>)"
  using rootOf_eq [OF assms]
  by (auto simp: appended_def)

lemma OnCommitted_appended:
  "\<exists>b s'. OnCommitted m ctx c s = (Returns b, s') \<and> appended s s' \<and> trace s' = trace s"
proof (cases "InTransaction_tc s (findTransContext m ctx)")
  case False
  then show ?thesis by (auto simp: OnCommitted_eq appended_refl)
next
  case True
  then have "findTransContext m ctx \<noteq> NilRef" by auto
  from appended_commit [OF this, of "ManagerOnCommitted c ctx" s] True
  show ?thesis by (auto simp: OnCommitted_eq)
qed

lemma OnRollbacked_appended:
  "\<exists>b s'. OnRollbacked m ctx c s = (Returns b, s') \<and> appended s s' \<and> trace s' = trace s"
proof (cases "findTransContext m ctx = NilRef")
  case True
  then show ?thesis by (auto simp: OnRollbacked_eq appended_refl)
next
  case False
  from appended_rollback [OF this, of s "ManagerOnRollbacked c ctx"] False
  show ?thesis by (auto simp: OnRollbacked_eq)
qed

text \<open>A user callback at work only registers; it returns unless its behaviour ends in a panic.\<close>

lemma invoke_appended:
  "\<exists>r s'. invoke m b captured given s = (r, s') \<and> appended s s' \<and> trace s' = trace s
         \<and> (returns b \<longrightarrow> r = Returns ())"
proof (induction b arbitrary: s)
  case ThenReturn
  show ?case by (simp add: appended_refl)
next
  case (ThenPanic x)
  show ?case by (simp add: appended_refl)
next
  case (RegisterCommitted tg c b k)
  from OnCommitted_appended [of m "case tg of Given \<Rightarrow> given | Captured \<Rightarrow> captured"
      "UserCallback c b" s]
  obtain r1 s1 where
    1: "OnCommitted m (case tg of Given \<Rightarrow> given | Captured \<Rightarrow> captured) (UserCallback c b) s
          = (Returns r1, s1)" "appended s s1" "trace s1 = trace s" by blast
  from RegisterCommitted.IH(2) [of s1] obtain r s' where
    2: "invoke m k captured given s1 = (r, s')" "appended s1 s'" "trace s' = trace s1"
       "returns k \<longrightarrow> r = Returns ()" by blast
  from 1 2 appended_trans [OF 1(2) 2(2)] show ?case by simp
next
  case (RegisterRollbacked tg c b k)
  from OnRollbacked_appended [of m "case tg of Given \<Rightarrow> given | Captured \<Rightarrow> captured"
      "UserCallback c b" s]
  obtain r1 s1 where
    1: "OnRollbacked m (case tg of Given \<Rightarrow> given | Captured \<Rightarrow> captured) (UserCallback c b) s
          = (Returns r1, s1)" "appended s s1" "trace s1 = trace s" by blast
  from RegisterRollbacked.IH(2) [of s1] obtain r s' where
    2: "invoke m k captured given s1 = (r, s')" "appended s1 s'" "trace s' = trace s1"
       "returns k \<longrightarrow> r = Returns ()" by blast
  from 1 2 appended_trans [OF 1(2) 2(2)] show ?case by simp
qed

text \<open>So no registry loses a closure.\<close>

lemma keeps_refl: "keeps s s"
  by (simp add: keeps_def)

lemma keeps_trans: "keeps s s1 \<Longrightarrow> keeps s1 s2 \<Longrightarrow> keeps s s2"
  unfolding keeps_def by (meson prefix_order.trans)

lemma appended_keeps: "appended s s' \<Longrightarrow> keeps s s'"
  unfolding appended_def keeps_def prefix_def by blast

lemma keeps_cong:
  "(\<And>a. onCommittedCallbacks (mem s0 a) = onCommittedCallbacks (mem s a)
        \<and> onRollbackedCallbacks (mem s0 a) = onRollbackedCallbacks (mem s a)) \<Longrightarrow>
   keeps s0 s' = keeps s s'"
  by (simp add: keeps_def)

lemma keeps_flags [simp]:
  "keeps (s\<lparr>mem := (mem s)(a := (mem s a)\<lparr>panicked := pk, err := e\<rparr>)\<rparr>) s' = keeps s s'"
  "keeps (s\<lparr>mem := (mem s)(a := (mem s a)\<lparr>done_flag := b\<rparr>)\<rparr>) s' = keeps s s'"
  "keeps (s\<lparr>mem := (mem s)(a := (mem s a)\<lparr>done_flag := b, panicked := pk, err := e\<rparr>)\<rparr>) s'
     = keeps s s'"
  by (rule keeps_cong, simp)+

section \<open>The cascade\<close>



lemma observations_append: "observations (xs @ ys) = observations xs @ observations ys"
  by (induction xs rule: observations.induct) simp_all

text \<open>
  Calling a closure adds calls of user callbacks to the trace and closures to the ends of
  registries, and nothing else.
\<close>

lemma call_err_shape:
  "\<exists>r s' evs. call_err m cb e s = (r, s') \<and> appended s s' \<and> trace s' = trace s @ evs
       \<and> observations evs = []"
proof (cases cb)
  case (ManagerOnRollbacked c cx)
  let ?ev = "RollbackedCalled (userName c) (cleanTransContext m cx s) e"
  from invoke_appended [of m "userBehaviour c" cx "cleanTransContext m cx s"
      "s\<lparr>trace := trace s @ [?ev]\<rparr>"]
  obtain r s' where "invoke m (userBehaviour c) cx (cleanTransContext m cx s)
      (s\<lparr>trace := trace s @ [?ev]\<rparr>) = (r, s')" "appended s s'" "trace s' = trace s @ [?ev]"
    by auto
  then show ?thesis
    using ManagerOnRollbacked by (intro exI [of _ r] exI [of _ s'] exI [of _ "[?ev]"]) simp
qed

lemma call_shape:
  "\<exists>r s' evs. call m cb s = (r, s') \<and> appended s s' \<and> trace s' = trace s @ evs
       \<and> observations evs = []"
proof (induction cb)
  case (ManagerOnCommitted c cx)
  let ?ev = "CommittedCalled (userName c) (cleanTransContext m cx s)"
  from invoke_appended [of m "userBehaviour c" cx "cleanTransContext m cx s"
      "s\<lparr>trace := trace s @ [?ev]\<rparr>"]
  obtain r s' where "invoke m (userBehaviour c) cx (cleanTransContext m cx s)
      (s\<lparr>trace := trace s @ [?ev]\<rparr>) = (r, s')" "appended s s'" "trace s' = trace s @ [?ev]"
    by auto
  then show ?case
    by (intro exI [of _ r] exI [of _ s'] exI [of _ "[?ev]"]) simp
next
  case (IfCommitted t cb)
  show ?case
  proof (cases "isCommitted s t")
    case True
    with IfCommitted show ?thesis by simp
  next
    case False
    then show ?thesis
      by (intro exI [of _ "Returns ()"] exI [of _ s] exI [of _ "[]"]) (simp add: appended_refl)
  qed
next
  case (IfRollbacked t cb)
  show ?case
  proof (cases "isRollbacked s t")
    case None
    then show ?thesis
      by (intro exI [of _ "Returns ()"] exI [of _ s] exI [of _ "[]"]) (simp add: appended_refl)
  next
    case (Some e)
    with call_err_shape [of m cb e s] show ?thesis by simp
  qed
qed

lemma callEach_shape:
  "\<exists>r s' evs. callEach m cbs s = (r, s') \<and> appended s s' \<and> trace s' = trace s @ evs
       \<and> observations evs = []"
proof (induction cbs arbitrary: s)
  case Nil
  show ?case
    by (intro exI [of _ "Returns ()"] exI [of _ s] exI [of _ "[]"]) (simp add: appended_refl)
next
  case (Cons cb cbs)
  from call_shape [of m cb s] obtain r1 s1 e1 where
    1: "call m cb s = (r1, s1)" "appended s s1" "trace s1 = trace s @ e1" "observations e1 = []"
    by blast
  show ?case
  proof (cases r1)
    case (Panics x)
    with 1 show ?thesis
      by (intro exI [of _ "Panics x"] exI [of _ s1] exI [of _ e1]) simp
  next
    case (Returns u)
    from Cons [of s1] obtain r2 s2 e2 where
      2: "callEach m cbs s1 = (r2, s2)" "appended s1 s2" "trace s2 = trace s1 @ e2"
         "observations e2 = []" by blast
    from 1 2 Returns appended_trans [OF 1(2) 2(2)] show ?thesis
      by (intro exI [of _ r2] exI [of _ s2] exI [of _ "e1 @ e2"])
         (simp add: observations_append)
  qed
qed






text \<open>\<^verbatim>\<open>End\<close>, whatever the registries hold.\<close>

lemma End_tc_shape:
  "\<exists>r s' evs. End_tc m (Ref a q d) pk e s = (r, s')
       \<and> appended (s\<lparr>mem := (mem s)(a := (mem s a)\<lparr>panicked := pk, err := e\<rparr>)\<rparr>) s'
       \<and> trace s' = trace s @ evs \<and> observations evs = []"
proof (cases "q = NilRef")
  case False
  then show ?thesis
    by (intro exI [of _ "Returns ()"]
          exI [of _ "s\<lparr>mem := (mem s)(a := (mem s a)\<lparr>panicked := pk, err := e\<rparr>)\<rparr>"]
          exI [of _ "[]"]) (simp add: Let_def appended_refl)
next
  case True
  let ?s1 = "s\<lparr>mem := (mem s)(a := (mem s a)\<lparr>panicked := pk, err := e\<rparr>)\<rparr>"
  from callEach_shape [of m "onCommittedCallbacks (mem ?s1 a)" ?s1] obtain r1 s2 e1 where
    1: "callEach m (onCommittedCallbacks (mem ?s1 a)) ?s1 = (r1, s2)" "appended ?s1 s2"
       "trace s2 = trace ?s1 @ e1" "observations e1 = []" by blast
  show ?thesis
  proof (cases r1)
    case (Panics x)
    then have "End_tc m (Ref a q d) pk e s = (Panics x, s2)"
      using True 1(1) by (simp add: Let_def doOnCommittedCallbacks_def)
    with 1 show ?thesis
      by (intro exI [of _ "Panics x"] exI [of _ s2] exI [of _ e1]) simp
  next
    case (Returns u)
    from callEach_shape [of m "onRollbackedCallbacks (mem s2 a)" s2] obtain r2 s3 e2 where
      2: "callEach m (onRollbackedCallbacks (mem s2 a)) s2 = (r2, s3)" "appended s2 s3"
         "trace s3 = trace s2 @ e2" "observations e2 = []" by blast
    have "End_tc m (Ref a q d) pk e s = (r2, s3)"
      using True 1(1) 2(1) Returns
      by (simp add: Let_def doOnCommittedCallbacks_def doOnRollbackedCallbacks_def)
    with 1 2 appended_trans [OF 1(2) 2(2)] show ?thesis
      by (intro exI [of _ r2] exI [of _ s3] exI [of _ "e1 @ e2"])
         (simp add: observations_append)
  qed
qed



text \<open>\<^verbatim>\<open>End\<close> removes no closure from any registry.\<close>

lemma End_tc_keeps: "keeps s (snd (End_tc m t pk e s))"
proof (cases t)
  case NilRef
  then show ?thesis by (simp add: keeps_refl)
next
  case (Ref a q d)
  from End_tc_shape [of m a q d pk e s] obtain r s' where
    "End_tc m (Ref a q d) pk e s = (r, s')"
    "appended (s\<lparr>mem := (mem s)(a := (mem s a)\<lparr>panicked := pk, err := e\<rparr>)\<rparr>) s'"
    by blast
  with appended_keeps [OF this(2)] Ref show ?thesis by simp
qed

section \<open>One Transaction call, unfolded\<close>

lemma isInTransaction_eq: "isInTransaction p ctx s = InTransaction (NewProvider p) ctx s"
  by (auto simp: isInTransaction_def InTransaction_def findTransContext_def NewProvider_fields
      split: option.splits)


text \<open>A nested call: the provider calls the closure directly.\<close>

lemma Transaction_nested:
  assumes "findTransContext (NewProvider p) ctx = Ref a q d"
      and "InTransaction_tc s (Ref a q d)"
  shows "Transaction (NewProvider p) ctx cb s =
     (case cb (childCtx (NewProvider p) ctx (Ref a q d) d s)
              (childState (NewProvider p) ctx (Ref a q d) d s) of
        (r, s3) \<Rightarrow> Transaction_finish (NewProvider p) (childRef (Ref a q d) d s) r s3)"
proof -
  have f: "findDBAndTransContext (NewProvider p) ctx s = Returns (Ref a q d, d)"
    using assms by (simp add: findDBAndTransContext_def)
  have i: "isInTransaction p ctx s"
    using assms by (simp add: isInTransaction_eq InTransaction_def)
  show ?thesis
    by (simp add: Transaction_def f NewProvider_fields transaction_p_def i
        childRef_def childCtx_def childState_def Start_def Let_def
        split: prod.splits)
qed

text \<open>
  An outermost call whose physical transaction begins: gorm commits when the closure
  returns nil, and returns what Commit returns.
\<close>

lemma Transaction_outermost:
  assumes "\<not> InTransaction (NewProvider p) ctx s"
      and "lookupDB_p p ctx True = Returns (Some d)"
      and "beginErr (gormLib p) d = None"
  shows "Transaction (NewProvider p) ctx cb s =
     (case cb (childCtx (NewProvider p) ctx NilRef (txOf (gormLib p) d) s)
              (childState (NewProvider p) ctx NilRef (txOf (gormLib p) d) s) of
        (r, s3) \<Rightarrow>
          Transaction_finish (NewProvider p) (childRef NilRef (txOf (gormLib p) d) s)
            (if r = Returns None then Returns (commitErr (gormLib p) d) else r) s3)"
proof -
  have f: "findDBAndTransContext (NewProvider p) ctx s = Returns (NilRef, d)"
    using assms by (simp add: findDBAndTransContext_def InTransaction_def NewProvider_fields)
  have i: "\<not> isInTransaction p ctx s"
    using assms by (simp add: isInTransaction_eq)
  show ?thesis
    by (simp add: Transaction_def f NewProvider_fields transaction_p_def i gormTransaction_def
        assms(3) childRef_def childCtx_def childState_def Start_def Let_def
        split: prod.splits result.splits option.splits)
qed

lemma Transaction_begin_fails:
  assumes "\<not> InTransaction (NewProvider p) ctx s"
      and "lookupDB_p p ctx True = Returns (Some d)"
      and "beginErr (gormLib p) d = Some e"
  shows "Transaction (NewProvider p) ctx cb s = (Returns (Some e), s)"
proof -
  have f: "findDBAndTransContext (NewProvider p) ctx s = Returns (NilRef, d)"
    using assms by (simp add: findDBAndTransContext_def InTransaction_def NewProvider_fields)
  have i: "\<not> isInTransaction p ctx s"
    using assms by (simp add: isInTransaction_eq)
  show ?thesis
    by (simp add: Transaction_def f NewProvider_fields transaction_p_def i gormTransaction_def
        assms(3) Transaction_finish_def Transaction_deferred_def)
qed

text \<open>A call that finds no node and gets no handle panics before anything else happens.\<close>

lemma Transaction_lookup_panics:
  assumes "\<not> InTransaction m ctx s"
      and "findDBAndTransContext m ctx s = Panics x"
  shows "Transaction m ctx cb s = (Panics x, s)"
  using assms by (simp add: Transaction_def Transaction_deferred_def)

text \<open>
  With the gorm provider a missing write database is met before the manager's test: the
  lookup itself panics, and so does \<^verbatim>\<open>Transaction\<close>.
\<close>

lemma Transaction_no_write_database:
  assumes "\<not> InTransaction (NewProvider p) ctx s" and "getWriteDB p ctx = None"
  shows "Transaction (NewProvider p) ctx cb s = (Panics nilPointerDereference, s)"
proof -
  have "findDBAndTransContext (NewProvider p) ctx s = Panics nilPointerDereference"
    using assms
    by (simp add: findDBAndTransContext_def InTransaction_def NewProvider_lookupDB)
  with Transaction_lookup_panics [OF assms(1)] show ?thesis by simp
qed


text \<open>
  The deferred function and the end of a call, whatever the registries hold: the node is
  marked done, the trace gains only calls of user callbacks, and no registry loses a
  closure.
\<close>

lemma Transaction_deferred_shape:
  "\<exists>r' s' evs. Transaction_deferred m (Ref a q d) r s = (r', s')
          \<and> trace s' = trace s @ evs \<and> observations evs = []
          \<and> done_flag (mem s' a) \<and> fresh s' = fresh s \<and> keeps s s'"
proof -
  let ?s1 = "s\<lparr>mem := (mem s)(a := (mem s a)\<lparr>done_flag := True\<rparr>)\<rparr>"
  have k1: "keeps s ?s1" by (simp add: keeps_def)
  show ?thesis
  proof (cases "\<exists>x. r = Panics x \<and> onRollbackedCallbacks (mem s a) \<noteq> []")
    case False
    then have "Transaction_deferred m (Ref a q d) r s = (r, ?s1)"
      by (cases r) (auto simp: Transaction_deferred_def Let_def)
    then show ?thesis
      using k1 by (intro exI [of _ r] exI [of _ ?s1] exI [of _ "[]"]) simp
  next
    case True
    then obtain x where x: "r = Panics x" "onRollbackedCallbacks (mem s a) \<noteq> []" by blast
    from End_tc_shape [of m a q d True "Some (toError x)" ?s1] obtain r2 s2 evs where
      e: "End_tc m (Ref a q d) True (Some (toError x)) ?s1 = (r2, s2)"
         "appended (?s1\<lparr>mem := (mem ?s1)(a := (mem ?s1 a)\<lparr>panicked := True, err := Some (toError x)\<rparr>)\<rparr>) s2"
         "trace s2 = trace ?s1 @ evs" "observations evs = []" by blast
    have "\<exists>r'. Transaction_deferred m (Ref a q d) r s = (r', s2)"
      using x e(1) by (cases r2) (simp_all add: Transaction_deferred_def Let_def del: End_tc.simps)
    moreover have "done_flag (mem s2 a)" "fresh s2 = fresh s"
      using e(2) by (simp_all add: appended_def)
    moreover have "keeps s s2"
      using appended_keeps [OF e(2)] by simp
    ultimately show ?thesis
      using e(3,4) by auto
  qed
qed

lemma Transaction_finish_shape:
  "\<exists>r' s' evs. Transaction_finish m (Ref a q d) r s = (r', s')
          \<and> trace s' = trace s @ evs \<and> observations evs = []
          \<and> done_flag (mem s' a) \<and> fresh s' = fresh s \<and> keeps s s'"
proof (cases r)
  case (Panics x)
  with Transaction_deferred_shape [of m a q d "Panics x" s] show ?thesis
    by (simp add: Transaction_finish_def)
next
  case (Returns e)
  from End_tc_shape [of m a q d False e s] obtain r1 s1 e1 where
    1: "End_tc m (Ref a q d) False e s = (r1, s1)"
       "appended (s\<lparr>mem := (mem s)(a := (mem s a)\<lparr>panicked := False, err := e\<rparr>)\<rparr>) s1"
       "trace s1 = trace s @ e1" "observations e1 = []" by blast
  have k1: "keeps s s1" "fresh s1 = fresh s"
    using appended_keeps [OF 1(2)] 1(2) by (simp_all add: appended_def)
  from Transaction_deferred_shape
         [of m a q d "case r1 of Panics x \<Rightarrow> Panics x | Returns u \<Rightarrow> Returns e" s1]
  obtain r' s' e2 where
    2: "Transaction_deferred m (Ref a q d)
          (case r1 of Panics x \<Rightarrow> Panics x | Returns u \<Rightarrow> Returns e) s1 = (r', s')"
       "trace s' = trace s1 @ e2" "observations e2 = []" "done_flag (mem s' a)"
       "fresh s' = fresh s1" "keeps s1 s'" by blast
  have "Transaction_finish m (Ref a q d) r s = (r', s')"
    using Returns 1(1) 2(1)
    by (cases r1) (simp_all add: Transaction_finish_def del: End_tc.simps)
  with 1 2 k1 keeps_trans [OF k1(1) 2(6)] show ?thesis
    by (intro exI [of _ r'] exI [of _ s'] exI [of _ "e1 @ e2"])
       (simp add: observations_append)
qed

text \<open>What a nested call whose node holds no rollback registration leaves behind.\<close>

lemma nested_finish:
  assumes "t \<noteq> NilRef" and "onRollbackedCallbacks (mem s3 (fresh s)) = []"
  shows "\<exists>s4. Transaction_finish m (childRef t d s) r s3 = (r, s4)
             \<and> fresh s4 = fresh s3 \<and> trace s4 = trace s3
             \<and> (\<forall>a. a \<noteq> fresh s \<longrightarrow> mem s4 a = mem s3 a)
             \<and> done_flag (mem s4 (fresh s))
             \<and> (\<forall>e. r = Returns e \<longrightarrow> \<not> panicked (mem s4 (fresh s)) \<and> err (mem s4 (fresh s)) = e)
             \<and> onCommittedCallbacks (mem s4 (fresh s)) = onCommittedCallbacks (mem s3 (fresh s))
             \<and> onRollbackedCallbacks (mem s4 (fresh s)) = []"
  using assms
  by (cases r) (simp_all add: Transaction_finish_def Transaction_deferred_def childRef_def Let_def)

section \<open>Callback programs\<close>

lemma allReturnNil_outcome: "allReturnNil prog \<Longrightarrow> outcome prog = Returns None"
  by (induction prog) simp_all

lemma registeredCommitted_eq: "registeredCommitted prog = map userName (committedCallbacks prog)"
  by (induction prog) (simp_all split: result.splits)


lemma userId_closures:
  assumes "map userCallbackOf cs = committedCallbacks prog"
      and "\<forall>cb\<in>set cs. isCommitCb cb"
  shows "map userId cs = registeredCommitted prog"
proof -
  have "map userId cs = map userName (map userCallbackOf cs)"
    using assms(2) by (simp add: userId_userCallbackOf)
  then show ?thesis
    using assms(1) by (simp add: registeredCommitted_eq)
qed


lemma seenInside_observations:
  "\<forall>ev\<in>set evs. seenInside m r ev \<Longrightarrow> (cx, b) \<in> set (observations evs) \<Longrightarrow>
     b \<and> findTransContext m cx \<noteq> NilRef \<and> rootCell (findTransContext m cx) = r"
  by (induction evs) (auto simp: seenInside_def)

lemma grow_refl: "grow m t s s [] []"
  by (simp add: grow_def)

lemma grow_frame:
  "grow m t s s' cids rids \<Longrightarrow> a < fresh s \<Longrightarrow> a \<noteq> rootCell t \<Longrightarrow> mem s' a = mem s a"
  by (simp add: grow_def)

lemma grow_trans:
  assumes "grow m t s s1 c1 r1" and "grow m t s1 s2 c2 r2"
  shows "grow m t s s2 (c1 @ c2) (r1 @ r2)"
proof -
  let ?r = "rootCell t"
  from assms(1) obtain cs1 rs1 ev1 where
    f1: "fresh s \<le> fresh s1"
    and m1: "\<forall>a. a < fresh s \<longrightarrow> a \<noteq> ?r \<longrightarrow> mem s1 a = mem s a"
    and d1: "done_flag (mem s1 ?r) = done_flag (mem s ?r)"
            "panicked (mem s1 ?r) = panicked (mem s ?r)" "err (mem s1 ?r) = err (mem s ?r)"
    and c1: "onCommittedCallbacks (mem s1 ?r) = onCommittedCallbacks (mem s ?r) @ cs1"
            "map userCallbackOf cs1 = c1"
            "\<forall>cb\<in>set cs1. isCommitCb cb \<and> ?r \<in> guardCells cb
                  \<and> guardCells cb \<subseteq> cells t \<union> {fresh s..<fresh s1}"
    and r1: "onRollbackedCallbacks (mem s1 ?r) = onRollbackedCallbacks (mem s ?r) @ rs1"
            "map userId rs1 = r1"
            "\<forall>cb\<in>set rs1. \<exists>c cx. cb = IfRollbacked (rootOf t) (ManagerOnRollbacked (UserCallback c ThenReturn) cx)"
    and e1: "trace s1 = trace s @ ev1" "\<forall>ev\<in>set ev1. seenInside m ?r ev"
    unfolding grow_def by blast
  from assms(2) obtain cs2 rs2 ev2 where
    f2: "fresh s1 \<le> fresh s2"
    and m2: "\<forall>a. a < fresh s1 \<longrightarrow> a \<noteq> ?r \<longrightarrow> mem s2 a = mem s1 a"
    and d2: "done_flag (mem s2 ?r) = done_flag (mem s1 ?r)"
            "panicked (mem s2 ?r) = panicked (mem s1 ?r)" "err (mem s2 ?r) = err (mem s1 ?r)"
    and c2: "onCommittedCallbacks (mem s2 ?r) = onCommittedCallbacks (mem s1 ?r) @ cs2"
            "map userCallbackOf cs2 = c2"
            "\<forall>cb\<in>set cs2. isCommitCb cb \<and> ?r \<in> guardCells cb
                  \<and> guardCells cb \<subseteq> cells t \<union> {fresh s1..<fresh s2}"
    and r2: "onRollbackedCallbacks (mem s2 ?r) = onRollbackedCallbacks (mem s1 ?r) @ rs2"
            "map userId rs2 = r2"
            "\<forall>cb\<in>set rs2. \<exists>c cx. cb = IfRollbacked (rootOf t) (ManagerOnRollbacked (UserCallback c ThenReturn) cx)"
    and e2: "trace s2 = trace s1 @ ev2" "\<forall>ev\<in>set ev2. seenInside m ?r ev"
    unfolding grow_def by blast
  have F: "fresh s \<le> fresh s2" using f1 f2 by simp
  have M: "\<forall>a. a < fresh s \<longrightarrow> a \<noteq> ?r \<longrightarrow> mem s2 a = mem s a"
    using m1 m2 f1 by auto
  have C: "onCommittedCallbacks (mem s2 ?r) = onCommittedCallbacks (mem s ?r) @ (cs1 @ cs2)"
          "map userCallbackOf (cs1 @ cs2) = c1 @ c2"
    using c1 c2 by simp_all
  have Cg: "\<forall>cb\<in>set (cs1 @ cs2). isCommitCb cb \<and> ?r \<in> guardCells cb
                  \<and> guardCells cb \<subseteq> cells t \<union> {fresh s..<fresh s2}"
  proof
    fix cb assume "cb \<in> set (cs1 @ cs2)"
    then consider "cb \<in> set cs1" | "cb \<in> set cs2" by auto
    then show "isCommitCb cb \<and> ?r \<in> guardCells cb
                  \<and> guardCells cb \<subseteq> cells t \<union> {fresh s..<fresh s2}"
    proof cases
      case 1
      with c1(3) have "isCommitCb cb \<and> ?r \<in> guardCells cb
          \<and> guardCells cb \<subseteq> cells t \<union> {fresh s..<fresh s1}" by blast
      moreover have "{fresh s..<fresh s1} \<subseteq> {fresh s..<fresh s2}" using f2 by auto
      ultimately show ?thesis by blast
    next
      case 2
      with c2(3) have "isCommitCb cb \<and> ?r \<in> guardCells cb
          \<and> guardCells cb \<subseteq> cells t \<union> {fresh s1..<fresh s2}" by blast
      moreover have "{fresh s1..<fresh s2} \<subseteq> {fresh s..<fresh s2}" using f1 by auto
      ultimately show ?thesis by blast
    qed
  qed
  have R: "onRollbackedCallbacks (mem s2 ?r) = onRollbackedCallbacks (mem s ?r) @ (rs1 @ rs2)"
          "map userId (rs1 @ rs2) = r1 @ r2"
          "\<forall>cb\<in>set (rs1 @ rs2). \<exists>c cx. cb = IfRollbacked (rootOf t) (ManagerOnRollbacked (UserCallback c ThenReturn) cx)"
    using r1 r2 by auto
  have E: "trace s2 = trace s @ (ev1 @ ev2)" "\<forall>ev\<in>set (ev1 @ ev2). seenInside m ?r ev"
    using e1 e2 by auto
  have D: "done_flag (mem s2 ?r) = done_flag (mem s ?r)"
          "panicked (mem s2 ?r) = panicked (mem s ?r)" "err (mem s2 ?r) = err (mem s ?r)"
    using d1 d2 by simp_all
  have XC: "\<exists>cs. onCommittedCallbacks (mem s2 ?r) = onCommittedCallbacks (mem s ?r) @ cs
           \<and> map userCallbackOf cs = c1 @ c2
           \<and> (\<forall>cb\<in>set cs. isCommitCb cb \<and> ?r \<in> guardCells cb
                  \<and> guardCells cb \<subseteq> cells t \<union> {fresh s..<fresh s2})"
    using C Cg by blast
  have XR: "\<exists>rs. onRollbackedCallbacks (mem s2 ?r) = onRollbackedCallbacks (mem s ?r) @ rs
           \<and> map userId rs = r1 @ r2
           \<and> (\<forall>cb\<in>set rs. \<exists>c cx. cb = IfRollbacked (rootOf t) (ManagerOnRollbacked (UserCallback c ThenReturn) cx))"
    using R by blast
  have XE: "\<exists>evs. trace s2 = trace s @ evs \<and> (\<forall>ev\<in>set evs. seenInside m ?r ev)"
    using E by blast
  show ?thesis
    unfolding grow_def using F M D XC XR XE by blast
qed

lemma grow_OnCommitted:
  assumes "findTransContext m ctx = t" and "InTransaction_tc s t"
  shows "\<exists>s'. OnCommitted m ctx c s = (Returns True, s') \<and> fresh s' = fresh s
            \<and> grow m t s s' [c] []"
proof -
  have nn: "t \<noteq> NilRef" using assms(2) by auto
  let ?cb = "wrapCommitted t (ManagerOnCommitted c ctx)"
  let ?s' = "s\<lparr>mem := (mem s)(rootCell t := (mem s (rootCell t))
                 \<lparr>onCommittedCallbacks := onCommittedCallbacks (mem s (rootCell t)) @ [?cb]\<rparr>)\<rparr>"
  have e: "OnCommitted m ctx c s = (Returns True, ?s')"
    using assms by (simp add: OnCommitted_eq)
  have cb: "userCallbackOf ?cb = c" "isCommitCb ?cb" "rootCell t \<in> guardCells ?cb"
           "guardCells ?cb \<subseteq> cells t \<union> {fresh s..<fresh ?s'}"
    using nn by (simp_all add: userCallbackOf_wrapCommitted isCommitCb_wrapCommitted
        guardCells_wrapCommitted rootCell_in_cells)
  have "\<exists>cs. onCommittedCallbacks (mem ?s' (rootCell t)) =
               onCommittedCallbacks (mem s (rootCell t)) @ cs
           \<and> map userCallbackOf cs = [c]
           \<and> (\<forall>cb\<in>set cs. isCommitCb cb \<and> rootCell t \<in> guardCells cb
                  \<and> guardCells cb \<subseteq> cells t \<union> {fresh s..<fresh ?s'})"
    using cb by (intro exI [of _ "[?cb]"]) simp
  then have "grow m t s ?s' [c] []"
    by (simp add: grow_def)
  with e show ?thesis by auto
qed

lemma grow_OnRollbacked:
  assumes "findTransContext m ctx = t" and "t \<noteq> NilRef"
  shows "\<exists>s'. OnRollbacked m ctx (UserCallback c ThenReturn) s = (Returns True, s')
            \<and> fresh s' = fresh s \<and> grow m t s s' [] [c]"
proof -
  let ?cb = "IfRollbacked (rootOf t) (ManagerOnRollbacked (UserCallback c ThenReturn) ctx)"
  let ?s' = "s\<lparr>mem := (mem s)(rootCell t := (mem s (rootCell t))
                 \<lparr>onRollbackedCallbacks := onRollbackedCallbacks (mem s (rootCell t)) @ [?cb]\<rparr>)\<rparr>"
  have e: "OnRollbacked m ctx (UserCallback c ThenReturn) s = (Returns True, ?s')"
    using assms by (simp add: OnRollbacked_eq)
  have "\<exists>rs. onRollbackedCallbacks (mem ?s' (rootCell t)) =
               onRollbackedCallbacks (mem s (rootCell t)) @ rs
           \<and> map userId rs = [c]
           \<and> (\<forall>cb\<in>set rs. \<exists>c cx.
                  cb = IfRollbacked (rootOf t) (ManagerOnRollbacked (UserCallback c ThenReturn) cx))"
    by (intro exI [of _ "[?cb]"]) simp
  then have "grow m t s ?s' [] [c]"
    by (simp add: grow_def)
  with e show ?thesis by auto
qed

lemma grow_Observe:
  assumes "findTransContext m ctx = t" and "InTransaction_tc s t"
  shows "grow m t s (s\<lparr>trace := trace s @ [Observed ctx (InTransaction m ctx s)]\<rparr>) [] []"
proof -
  have nn: "t \<noteq> NilRef" using assms(2) by auto
  have "seenInside m (rootCell t) (Observed ctx (InTransaction m ctx s))"
    using assms nn by (simp add: seenInside_def InTransaction_def)
  then show ?thesis
    by (simp add: grow_def)
qed

lemma grow_nested:
  assumes nn: "t \<noteq> NilRef" and lt: "rootCell t < fresh s"
      and g: "grow m (childRef t d s) (childState m ctx t d s) s3 ucs rids"
      and s4: "fresh s4 = fresh s3" "trace s4 = trace s3"
              "\<forall>a. a \<noteq> fresh s \<longrightarrow> mem s4 a = mem s3 a"
  shows "grow m t s s4 ucs rids"
proof -
  let ?r = "rootCell t"
  let ?s2 = "childState m ctx t d s"
  have ne: "?r \<noteq> fresh s" using lt by simp
  from g obtain cs rs evs where
    f: "Suc (fresh s) \<le> fresh s3"
    and mm: "\<forall>a. a < Suc (fresh s) \<longrightarrow> a \<noteq> ?r \<longrightarrow> mem s3 a = mem ?s2 a"
    and d: "done_flag (mem s3 ?r) = done_flag (mem ?s2 ?r)"
           "panicked (mem s3 ?r) = panicked (mem ?s2 ?r)" "err (mem s3 ?r) = err (mem ?s2 ?r)"
    and c: "onCommittedCallbacks (mem s3 ?r) = onCommittedCallbacks (mem ?s2 ?r) @ cs"
           "map userCallbackOf cs = ucs"
           "\<forall>cb\<in>set cs. isCommitCb cb \<and> ?r \<in> guardCells cb
                  \<and> guardCells cb \<subseteq> insert (fresh s) (cells t) \<union> {Suc (fresh s)..<fresh s3}"
    and r: "onRollbackedCallbacks (mem s3 ?r) = onRollbackedCallbacks (mem ?s2 ?r) @ rs"
           "map userId rs = rids"
           "\<forall>cb\<in>set rs. \<exists>c cx. cb = IfRollbacked (rootOf t) (ManagerOnRollbacked (UserCallback c ThenReturn) cx)"
    and e: "trace s3 = trace ?s2 @ evs" "\<forall>ev\<in>set evs. seenInside m ?r ev"
    unfolding grow_def using nn by (auto simp: childRef_simps childState_simps)
  have r2: "mem ?s2 ?r = mem s ?r" using ne by (simp add: childState_simps)
  have r4: "mem s4 ?r = mem s3 ?r" using ne s4(3) by simp
  have F: "fresh s \<le> fresh s4" using f s4(1) by simp
  have M: "\<forall>a. a < fresh s \<longrightarrow> a \<noteq> ?r \<longrightarrow> mem s4 a = mem s a"
    using mm s4(3) by (auto simp: childState_simps)
  have G: "\<forall>cb\<in>set cs. isCommitCb cb \<and> ?r \<in> guardCells cb
                  \<and> guardCells cb \<subseteq> cells t \<union> {fresh s..<fresh s4}"
  proof
    fix cb assume "cb \<in> set cs"
    with c(3) have x: "isCommitCb cb \<and> ?r \<in> guardCells cb
        \<and> guardCells cb \<subseteq> insert (fresh s) (cells t) \<union> {Suc (fresh s)..<fresh s3}" by blast
    have "insert (fresh s) (cells t) \<union> {Suc (fresh s)..<fresh s3} \<subseteq> cells t \<union> {fresh s..<fresh s4}"
      using f s4(1) by auto
    with x show "isCommitCb cb \<and> ?r \<in> guardCells cb
                  \<and> guardCells cb \<subseteq> cells t \<union> {fresh s..<fresh s4}" by blast
  qed
  have XC: "\<exists>cs. onCommittedCallbacks (mem s4 ?r) = onCommittedCallbacks (mem s ?r) @ cs
           \<and> map userCallbackOf cs = ucs
           \<and> (\<forall>cb\<in>set cs. isCommitCb cb \<and> ?r \<in> guardCells cb
                  \<and> guardCells cb \<subseteq> cells t \<union> {fresh s..<fresh s4})"
    using c(1,2) G r2 r4 by auto
  have XR: "\<exists>rs. onRollbackedCallbacks (mem s4 ?r) = onRollbackedCallbacks (mem s ?r) @ rs
           \<and> map userId rs = rids
           \<and> (\<forall>cb\<in>set rs. \<exists>c cx. cb = IfRollbacked (rootOf t) (ManagerOnRollbacked (UserCallback c ThenReturn) cx))"
    using r r2 r4 by auto
  have XE: "\<exists>evs. trace s4 = trace s @ evs \<and> (\<forall>ev\<in>set evs. seenInside m ?r ev)"
    using e s4(2) by (auto simp: childState_simps)
  have D: "done_flag (mem s4 ?r) = done_flag (mem s ?r)"
          "panicked (mem s4 ?r) = panicked (mem s ?r)" "err (mem s4 ?r) = err (mem s ?r)"
    using d r2 r4 by simp_all
  show ?thesis
    unfolding grow_def using F M D XC XR XE by blast
qed

text \<open>A callback that runs inside an active transaction returns what \<open>outcome\<close> says and changes the store as \<open>grow\<close> says, with the registrations read off the program.\<close>

lemma run_grow:
  assumes ks: "keyStable (NewProvider p)"
  shows "findTransContext (NewProvider p) ctx = t \<Longrightarrow> t \<noteq> NilRef \<Longrightarrow> rootCell t < fresh s \<Longrightarrow>
         \<not> done_flag (mem s (rootCell t)) \<Longrightarrow>
         \<exists>s'. run (NewProvider p) prog ctx s = (outcome prog, s')
            \<and> grow (NewProvider p) t s s' (committedCallbacks prog) (registeredRollbacked prog)"
proof (induction prog arbitrary: ctx t s)
  case (Return e)
  then show ?case by (simp add: grow_refl)
next
  case (Panic x)
  then show ?case by (simp add: grow_refl)
next
  case (RegCommitted c prog)
  let ?m = "NewProvider p"
  let ?c = "UserCallback c ThenReturn"
  have it: "InTransaction_tc s t"
    using RegCommitted.prems by (simp add: InTransaction_tc_rootCell)
  from grow_OnCommitted [OF RegCommitted.prems(1) it, of ?c]
  obtain s1 where o: "OnCommitted ?m ctx ?c s = (Returns True, s1)"
    and g1: "grow ?m t s s1 [?c] []"
    by blast
  have pre: "rootCell t < fresh s1" "\<not> done_flag (mem s1 (rootCell t))"
    using g1 RegCommitted.prems by (auto simp: grow_def)
  from RegCommitted.IH [OF RegCommitted.prems(1,2) pre]
  obtain s2 where r: "run ?m prog ctx s1 = (outcome prog, s2)"
    and g2: "grow ?m t s1 s2 (committedCallbacks prog) (registeredRollbacked prog)"
    by blast
  from grow_trans [OF g1 g2] r o show ?case by simp
next
  case (RegCommittedWith c b prog)
  let ?m = "NewProvider p"
  let ?c = "UserCallback c b"
  have it: "InTransaction_tc s t"
    using RegCommittedWith.prems by (simp add: InTransaction_tc_rootCell)
  from grow_OnCommitted [OF RegCommittedWith.prems(1) it, of ?c]
  obtain s1 where o: "OnCommitted ?m ctx ?c s = (Returns True, s1)"
    and g1: "grow ?m t s s1 [?c] []"
    by blast
  have pre: "rootCell t < fresh s1" "\<not> done_flag (mem s1 (rootCell t))"
    using g1 RegCommittedWith.prems by (auto simp: grow_def)
  from RegCommittedWith.IH [OF RegCommittedWith.prems(1,2) pre]
  obtain s2 where r: "run ?m prog ctx s1 = (outcome prog, s2)"
    and g2: "grow ?m t s1 s2 (committedCallbacks prog) (registeredRollbacked prog)"
    by blast
  from grow_trans [OF g1 g2] r o show ?case by simp
next
  case (RegRollbacked c prog)
  let ?m = "NewProvider p"
  from grow_OnRollbacked [OF RegRollbacked.prems(1,2), of c s]
  obtain s1 where o: "OnRollbacked ?m ctx (UserCallback c ThenReturn) s = (Returns True, s1)"
    and g1: "grow ?m t s s1 [] [c]"
    by blast
  have pre: "rootCell t < fresh s1" "\<not> done_flag (mem s1 (rootCell t))"
    using g1 RegRollbacked.prems by (auto simp: grow_def)
  from RegRollbacked.IH [OF RegRollbacked.prems(1,2) pre]
  obtain s2 where r: "run ?m prog ctx s1 = (outcome prog, s2)"
    and g2: "grow ?m t s1 s2 (committedCallbacks prog) (registeredRollbacked prog)"
    by blast
  from grow_trans [OF g1 g2] r o show ?case by simp
next
  case (Observe prog)
  let ?m = "NewProvider p"
  let ?s1 = "s\<lparr>trace := trace s @ [Observed ctx (InTransaction ?m ctx s)]\<rparr>"
  have it: "InTransaction_tc s t"
    using Observe.prems by (simp add: InTransaction_tc_rootCell)
  have g1: "grow ?m t s ?s1 [] []"
    by (rule grow_Observe [OF Observe.prems(1) it])
  have pre: "rootCell t < fresh ?s1" "\<not> done_flag (mem ?s1 (rootCell t))"
    using Observe.prems by simp_all
  from Observe.IH [OF Observe.prems(1,2) pre]
  obtain s2 where r: "run ?m prog ctx ?s1 = (outcome prog, s2)"
    and g2: "grow ?m t ?s1 s2 (committedCallbacks prog) (registeredRollbacked prog)"
    by blast
  from grow_trans [OF g1 g2] r show ?case by simp
next
  case (Nested prog k)
  let ?m = "NewProvider p"
  from Nested.prems(2) obtain a q d where t: "t = Ref a q d"
    by (cases t) auto
  have it: "InTransaction_tc s t"
    using Nested.prems by (simp add: InTransaction_tc_rootCell)
  let ?t1 = "childRef t d s"
  let ?ctx1 = "childCtx ?m ctx t d s"
  let ?s2 = "childState ?m ctx t d s"
  have ne: "rootCell t \<noteq> fresh s" using Nested.prems(3) by simp
  have f1: "findTransContext ?m ?ctx1 = ?t1"
    by (simp add: childCtx_def findTransContext_set [OF ks])
  have pre1: "?t1 \<noteq> NilRef" "rootCell ?t1 < fresh ?s2" "\<not> done_flag (mem ?s2 (rootCell ?t1))"
    using Nested.prems ne by (simp_all add: childRef_simps childState_simps)
  from Nested.IH(1) [OF f1 pre1]
  obtain s3 where r1: "run ?m prog ?ctx1 ?s2 = (outcome prog, s3)"
    and g1: "grow ?m ?t1 ?s2 s3 (committedCallbacks prog) (registeredRollbacked prog)"
    by blast
  have "mem s3 (fresh s) = mem ?s2 (fresh s)"
    using g1 ne Nested.prems(2) by (simp add: grow_def childRef_simps childState_simps)
  then have emp: "onRollbackedCallbacks (mem s3 (fresh s)) = []"
    by (simp add: childState_simps)
  from nested_finish [OF Nested.prems(2) emp, where r = "outcome prog" and m = ?m and d = d]
  obtain s4 where
    fin: "Transaction_finish ?m ?t1 (outcome prog) s3 = (outcome prog, s4)"
    and s4: "fresh s4 = fresh s3" "trace s4 = trace s3"
            "\<forall>a. a \<noteq> fresh s \<longrightarrow> mem s4 a = mem s3 a"
    by blast
  have T: "Transaction ?m ctx (run ?m prog) s = (outcome prog, s4)"
    using Transaction_nested [of p ctx a q d s "run ?m prog"] Nested.prems(1) it t r1 fin
    by simp
  have g4: "grow ?m t s s4 (committedCallbacks prog) (registeredRollbacked prog)"
    by (rule grow_nested [OF Nested.prems(2,3) g1 s4])
  show ?case
  proof (cases "outcome prog")
    case (Panics x)
    with T g4 show ?thesis by simp
  next
    case (Returns e)
    have pre2: "rootCell t < fresh s4" "\<not> done_flag (mem s4 (rootCell t))"
      using g4 Nested.prems by (auto simp: grow_def)
    have "k e \<in> range k" by simp
    from Nested.IH(2) [OF this Nested.prems(1,2) pre2]
    obtain s5 where r2: "run ?m (k e) ctx s4 = (outcome (k e), s5)"
      and g5: "grow ?m t s4 s5 (committedCallbacks (k e)) (registeredRollbacked (k e))"
      by blast
    from grow_trans [OF g4 g5] r2 T Returns show ?thesis by simp
  qed
qed

text \<open>When every callback returns nil, every node created while a callback runs has ended with no panic and no error.\<close>

lemma run_good:
  assumes ks: "keyStable (NewProvider p)"
  shows "allReturnNil prog \<Longrightarrow> findTransContext (NewProvider p) ctx = t \<Longrightarrow> t \<noteq> NilRef \<Longrightarrow>
         rootCell t < fresh s \<Longrightarrow> \<not> done_flag (mem s (rootCell t)) \<Longrightarrow>
         run (NewProvider p) prog ctx s = (r, s') \<Longrightarrow>
         fresh s \<le> a \<Longrightarrow> a < fresh s' \<Longrightarrow> good s' a"
proof (induction prog arbitrary: ctx t s r s' a)
  case (Return e)
  then show ?case by simp
next
  case (Panic x)
  then show ?case by simp
next
  case (RegCommitted c prog)
  let ?m = "NewProvider p"
  let ?c = "UserCallback c ThenReturn"
  have it: "InTransaction_tc s t"
    using RegCommitted.prems by (simp add: InTransaction_tc_rootCell)
  from grow_OnCommitted [OF RegCommitted.prems(2) it, of ?c]
  obtain s1 where o: "OnCommitted ?m ctx ?c s = (Returns True, s1)"
    and f1: "fresh s1 = fresh s" and g1: "grow ?m t s s1 [?c] []"
    by blast
  have pre: "rootCell t < fresh s1" "\<not> done_flag (mem s1 (rootCell t))"
    using g1 RegCommitted.prems by (auto simp: grow_def)
  have r: "run ?m prog ctx s1 = (r, s')"
    using RegCommitted.prems(6) o by simp
  show ?case
    using RegCommitted.IH [OF _ RegCommitted.prems(2,3) pre r, of a] RegCommitted.prems f1
    by simp
next
  case (RegCommittedWith c b prog)
  let ?m = "NewProvider p"
  let ?c = "UserCallback c b"
  have it: "InTransaction_tc s t"
    using RegCommittedWith.prems by (simp add: InTransaction_tc_rootCell)
  from grow_OnCommitted [OF RegCommittedWith.prems(2) it, of ?c]
  obtain s1 where o: "OnCommitted ?m ctx ?c s = (Returns True, s1)"
    and f1: "fresh s1 = fresh s" and g1: "grow ?m t s s1 [?c] []"
    by blast
  have pre: "rootCell t < fresh s1" "\<not> done_flag (mem s1 (rootCell t))"
    using g1 RegCommittedWith.prems by (auto simp: grow_def)
  have r: "run ?m prog ctx s1 = (r, s')"
    using RegCommittedWith.prems(6) o by simp
  show ?case
    using RegCommittedWith.IH [OF _ RegCommittedWith.prems(2,3) pre r, of a]
      RegCommittedWith.prems f1
    by simp
next
  case (RegRollbacked c prog)
  let ?m = "NewProvider p"
  from grow_OnRollbacked [OF RegRollbacked.prems(2,3), of c s]
  obtain s1 where o: "OnRollbacked ?m ctx (UserCallback c ThenReturn) s = (Returns True, s1)"
    and f1: "fresh s1 = fresh s" and g1: "grow ?m t s s1 [] [c]"
    by blast
  have pre: "rootCell t < fresh s1" "\<not> done_flag (mem s1 (rootCell t))"
    using g1 RegRollbacked.prems by (auto simp: grow_def)
  have r: "run ?m prog ctx s1 = (r, s')"
    using RegRollbacked.prems(6) o by simp
  show ?case
    using RegRollbacked.IH [OF _ RegRollbacked.prems(2,3) pre r, of a] RegRollbacked.prems f1
    by simp
next
  case (Observe prog)
  let ?m = "NewProvider p"
  let ?s1 = "s\<lparr>trace := trace s @ [Observed ctx (InTransaction ?m ctx s)]\<rparr>"
  have pre: "rootCell t < fresh ?s1" "\<not> done_flag (mem ?s1 (rootCell t))"
    using Observe.prems by simp_all
  have r: "run ?m prog ctx ?s1 = (r, s')"
    using Observe.prems(6) by simp
  show ?case
    using Observe.IH [OF _ Observe.prems(2,3) pre r, of a] Observe.prems by simp
next
  case (Nested prog k)
  let ?m = "NewProvider p"
  from Nested.prems(3) obtain b q d where t: "t = Ref b q d"
    by (cases t) auto
  have an: "allReturnNil prog" "allReturnNil (k None)"
    using Nested.prems(1) by simp_all
  have op: "outcome prog = Returns None"
    using an(1) by (rule allReturnNil_outcome)
  have it: "InTransaction_tc s t"
    using Nested.prems by (simp add: InTransaction_tc_rootCell)
  let ?t1 = "childRef t d s"
  let ?ctx1 = "childCtx ?m ctx t d s"
  let ?s2 = "childState ?m ctx t d s"
  have ne: "rootCell t \<noteq> fresh s" using Nested.prems(4) by simp
  have f1: "findTransContext ?m ?ctx1 = ?t1"
    by (simp add: childCtx_def findTransContext_set [OF ks])
  have pre1: "?t1 \<noteq> NilRef" "rootCell ?t1 < fresh ?s2" "\<not> done_flag (mem ?s2 (rootCell ?t1))"
    using Nested.prems ne by (simp_all add: childRef_simps childState_simps)
  from run_grow [OF ks f1 pre1, of prog]
  obtain s3 where r1: "run ?m prog ?ctx1 ?s2 = (Returns None, s3)"
    and g1: "grow ?m ?t1 ?s2 s3 (committedCallbacks prog) (registeredRollbacked prog)"
    using op by auto
  have good3: "Suc (fresh s) \<le> c \<Longrightarrow> c < fresh s3 \<Longrightarrow> good s3 c" for c
    using Nested.IH(1) [OF an(1) f1 pre1 r1, of c] by (simp add: childState_simps)
  have "mem s3 (fresh s) = mem ?s2 (fresh s)"
    using g1 ne Nested.prems(3) by (simp add: grow_def childRef_simps childState_simps)
  then have emp: "onRollbackedCallbacks (mem s3 (fresh s)) = []"
    by (simp add: childState_simps)
  from nested_finish [OF Nested.prems(3) emp, where r = "Returns None" and m = ?m and d = d]
  obtain s4 where
    fin: "Transaction_finish ?m ?t1 (Returns None) s3 = (Returns None, s4)"
    and s4: "fresh s4 = fresh s3" "trace s4 = trace s3"
            "\<forall>a. a \<noteq> fresh s \<longrightarrow> mem s4 a = mem s3 a"
    and g0: "\<not> panicked (mem s4 (fresh s))" "err (mem s4 (fresh s)) = None"
    by auto
  have T: "Transaction ?m ctx (run ?m prog) s = (Returns None, s4)"
    using Transaction_nested [of p ctx b q d s "run ?m prog"] Nested.prems(2) it t r1 fin
    by simp
  have g4: "grow ?m t s s4 (committedCallbacks prog) (registeredRollbacked prog)"
    by (rule grow_nested [OF Nested.prems(3,4) g1 s4])
  have good4: "fresh s \<le> c \<Longrightarrow> c < fresh s4 \<Longrightarrow> good s4 c" for c
  proof (cases "c = fresh s")
    case True
    with g0 show ?thesis by (simp add: good_def)
  next
    case False
    assume "fresh s \<le> c" "c < fresh s4"
    with False good3 [of c] s4 show ?thesis by (simp add: good_def)
  qed
  have pre2: "rootCell t < fresh s4" "\<not> done_flag (mem s4 (rootCell t))"
    using g4 Nested.prems by (auto simp: grow_def)
  have r2: "run ?m (k None) ctx s4 = (r, s')"
    using Nested.prems(6) T by simp
  have "k None \<in> range k" by simp
  note IH2 = Nested.IH(2) [OF this an(2) Nested.prems(2,3) pre2 r2]
  from run_grow [OF ks Nested.prems(2,3) pre2, of "k None"] r2
  have g5: "grow ?m t s4 s' (committedCallbacks (k None)) (registeredRollbacked (k None))"
    by auto
  show ?case
  proof (cases "a < fresh s4")
    case True
    have "a \<noteq> rootCell t" using Nested.prems(4,7) by simp
    then have "mem s' a = mem s4 a"
      using grow_frame [OF g5 True] by simp
    with good4 [of a] True Nested.prems(7) show ?thesis by (simp add: good_def)
  next
    case False
    then show ?thesis using IH2 [of a] Nested.prems(8) by simp
  qed
qed

text \<open>The callback of an outermost call: the store it starts with and the store it leaves.\<close>

lemma run_root:
  assumes ks: "keyStable (NewProvider p)"
  shows "\<exists>s3 cs rs evs.
           run (NewProvider p) prog (childCtx (NewProvider p) ctx NilRef d s)
               (childState (NewProvider p) ctx NilRef d s) = (outcome prog, s3)
         \<and> Suc (fresh s) \<le> fresh s3
         \<and> (\<forall>a. a < fresh s \<longrightarrow> mem s3 a = mem s a)
         \<and> \<not> done_flag (mem s3 (fresh s))
         \<and> panicked (mem s3 (fresh s)) \<and> err (mem s3 (fresh s)) = None
         \<and> onCommittedCallbacks (mem s3 (fresh s)) = cs
         \<and> map userCallbackOf cs = committedCallbacks prog
         \<and> (\<forall>cb\<in>set cs. isCommitCb cb \<and> fresh s \<in> guardCells cb
                \<and> guardCells cb \<subseteq> {fresh s..<fresh s3})
         \<and> onRollbackedCallbacks (mem s3 (fresh s)) = rs
         \<and> map userId rs = registeredRollbacked prog
         \<and> (\<forall>cb\<in>set rs. \<exists>c cx. cb = IfRollbacked (childRef NilRef d s) (ManagerOnRollbacked (UserCallback c ThenReturn) cx))
         \<and> trace s3 = trace s @ evs
         \<and> (\<forall>ev\<in>set evs. seenInside (NewProvider p) (fresh s) ev)
         \<and> (allReturnNil prog \<longrightarrow> (\<forall>a. Suc (fresh s) \<le> a \<longrightarrow> a < fresh s3 \<longrightarrow> good s3 a))"
proof -
  let ?m = "NewProvider p"
  let ?t1 = "childRef NilRef d s"
  let ?ctx1 = "childCtx ?m ctx NilRef d s"
  let ?s2 = "childState ?m ctx NilRef d s"
  have f1: "findTransContext ?m ?ctx1 = ?t1"
    by (simp add: childCtx_def findTransContext_set [OF ks])
  have pre1: "?t1 \<noteq> NilRef" "rootCell ?t1 < fresh ?s2" "\<not> done_flag (mem ?s2 (rootCell ?t1))"
    by (simp_all add: childRef_simps childState_simps)
  from run_grow [OF ks f1 pre1, of prog]
  obtain s3 where r1: "run ?m prog ?ctx1 ?s2 = (outcome prog, s3)"
    and g1: "grow ?m ?t1 ?s2 s3 (committedCallbacks prog) (registeredRollbacked prog)"
    by blast
  from g1 obtain cs rs evs where
    f: "Suc (fresh s) \<le> fresh s3"
    and mm: "\<forall>a. a < Suc (fresh s) \<longrightarrow> a \<noteq> fresh s \<longrightarrow> mem s3 a = mem ?s2 a"
    and d: "\<not> done_flag (mem s3 (fresh s))"
           "panicked (mem s3 (fresh s))" "err (mem s3 (fresh s)) = None"
    and c: "onCommittedCallbacks (mem s3 (fresh s)) = cs"
           "map userCallbackOf cs = committedCallbacks prog"
           "\<forall>cb\<in>set cs. isCommitCb cb \<and> fresh s \<in> guardCells cb
                  \<and> guardCells cb \<subseteq> {fresh s} \<union> {Suc (fresh s)..<fresh s3}"
    and r: "onRollbackedCallbacks (mem s3 (fresh s)) = rs"
           "map userId rs = registeredRollbacked prog"
           "\<forall>cb\<in>set rs. \<exists>c cx. cb = IfRollbacked ?t1 (ManagerOnRollbacked (UserCallback c ThenReturn) cx)"
    and e: "trace s3 = trace s @ evs" "\<forall>ev\<in>set evs. seenInside ?m (fresh s) ev"
    unfolding grow_def by (auto simp: childRef_simps childState_simps)
  have M: "\<forall>a. a < fresh s \<longrightarrow> mem s3 a = mem s a"
    using mm by (auto simp: childState_simps)
  have G: "\<forall>cb\<in>set cs. isCommitCb cb \<and> fresh s \<in> guardCells cb
                \<and> guardCells cb \<subseteq> {fresh s..<fresh s3}"
  proof
    fix cb assume "cb \<in> set cs"
    with c(3) have x: "isCommitCb cb \<and> fresh s \<in> guardCells cb
        \<and> guardCells cb \<subseteq> {fresh s} \<union> {Suc (fresh s)..<fresh s3}" by blast
    have "{fresh s} \<union> {Suc (fresh s)..<fresh s3} \<subseteq> {fresh s..<fresh s3}"
      using f by auto
    with x show "isCommitCb cb \<and> fresh s \<in> guardCells cb
                \<and> guardCells cb \<subseteq> {fresh s..<fresh s3}" by blast
  qed
  have N: "allReturnNil prog \<longrightarrow> (\<forall>a. Suc (fresh s) \<le> a \<longrightarrow> a < fresh s3 \<longrightarrow> good s3 a)"
  proof (intro impI allI)
    fix a assume "allReturnNil prog" "Suc (fresh s) \<le> a" "a < fresh s3"
    with run_good [OF ks _ f1 pre1 r1, of a] show "good s3 a"
      by (simp add: childState_simps)
  qed
  show ?thesis
    using r1 f M d c(1,2) G r e N by blast
qed

section \<open>What the end of a call depends on\<close>

text \<open>
  Of the three functions of a manager, only the key function is used once
  \<^verbatim>\<open>m.transaction\<close> has handed over: by registrations, by the calls of closures, by
  \<^verbatim>\<open>End\<close> and by the end of \<^verbatim>\<open>Transaction\<close>.
\<close>

lemma findTransContext_key:
  "ctxKeyF m' = ctxKeyF m \<Longrightarrow> findTransContext m' = findTransContext m"
  by (rule ext) (simp add: findTransContext_def)

lemma cleanTransContext_key:
  assumes "ctxKeyF m' = ctxKeyF m"
  shows "cleanTransContext m' = cleanTransContext m"
  by (intro ext) (simp add: cleanTransContext_def findTransContext_key [OF assms] assms)

lemma OnCommitted_key:
  assumes "ctxKeyF m' = ctxKeyF m"
  shows "OnCommitted m' = OnCommitted m"
  by (intro ext) (simp add: OnCommitted_def findTransContext_key [OF assms])

lemma OnRollbacked_key:
  assumes "ctxKeyF m' = ctxKeyF m"
  shows "OnRollbacked m' = OnRollbacked m"
  by (intro ext) (simp add: OnRollbacked_def findTransContext_key [OF assms])

lemma invoke_key:
  assumes "ctxKeyF m' = ctxKeyF m"
  shows "invoke m' b captured given s = invoke m b captured given s"
  by (induction b arbitrary: s)
     (simp_all add: OnCommitted_key [OF assms] OnRollbacked_key [OF assms]
        split: prod.splits result.splits)

lemma call_err_key:
  assumes "ctxKeyF m' = ctxKeyF m"
  shows "call_err m' cb e s = call_err m cb e s"
  by (cases cb) (simp add: cleanTransContext_key [OF assms] invoke_key [OF assms])

lemma call_key:
  assumes "ctxKeyF m' = ctxKeyF m"
  shows "call m' cb s = call m cb s"
  by (induction cb)
     (simp_all add: cleanTransContext_key [OF assms] invoke_key [OF assms]
        call_err_key [OF assms] split: option.splits)

lemma callEach_key:
  assumes "ctxKeyF m' = ctxKeyF m"
  shows "callEach m' cbs s = callEach m cbs s"
  by (induction cbs arbitrary: s)
     (simp_all add: call_key [OF assms] split: prod.splits result.splits)

lemma End_tc_key:
  assumes "ctxKeyF m' = ctxKeyF m"
  shows "End_tc m' t pk e s = End_tc m t pk e s"
  by (cases t)
     (simp_all add: doOnCommittedCallbacks_def doOnRollbackedCallbacks_def Let_def
        callEach_key [OF assms] split: prod.splits result.splits)

lemma Transaction_deferred_key:
  assumes "ctxKeyF m' = ctxKeyF m"
  shows "Transaction_deferred m' t r s = Transaction_deferred m t r s"
  by (simp add: Transaction_deferred_def End_tc_key [OF assms] Let_def del: End_tc.simps
      split: transContextRef.splits prod.splits result.splits)

lemma Transaction_finish_key:
  assumes "ctxKeyF m' = ctxKeyF m"
  shows "Transaction_finish m' t r s = Transaction_finish m t r s"
  by (simp add: Transaction_finish_def End_tc_key [OF assms] Transaction_deferred_key [OF assms]
      del: End_tc.simps split: prod.splits result.splits)

section \<open>The claims\<close>

text \<open>
  Claim C1: the code at the failing input. In the first run the nested node (address 1)
  is rolled back with error E when the cascade runs, and rollback callback 7, registered
  on that node, is not called. In the second run the first error from the nested node
  toward the root is E1, and the callback receives E2, the root's error.
\<close>

theorem C1_rollback_checked_at_root:
  "fst nestedErrorDropped = Returns None
 \<and> isRollbacked (snd nestedErrorDropped) (Ref 1 (Ref 0 NilRef 101) 101) = Some (Error ''E'')
 \<and> rollbackedCalls (trace (snd nestedErrorDropped)) = []
 \<and> fst nestedErrorReplaced = Returns (Some (Error ''E2''))
 \<and> isRollbacked (snd nestedErrorReplaced) (Ref 1 (Ref 0 NilRef 101) 101) = Some (Error ''E1'')
 \<and> rollbackedCalls (trace (snd nestedErrorReplaced)) = [(7, Error ''E2'')]"
  by code_simp




text \<open>
  Claim C3. When \<^verbatim>\<open>Transaction\<close> is called on a context that is inside an active
  transaction of the provider's manager, \<^verbatim>\<open>findDBAndTransContext\<close> returns the
  existing node with that node's handle \<open>d\<close>, and the provider's \<^verbatim>\<open>transaction\<close>
  function, given that handle, calls the closure directly with that same handle. So
  \<^verbatim>\<open>Transaction\<close> starts a node under the existing one with the handle \<open>d\<close>, binds
  the new context to the statement of \<open>d\<close>, runs the callback on the new context and
  ends the node. This is so whatever gorm's own \<^verbatim>\<open>Transaction\<close>, Begin and Commit
  would do (\<open>g\<close>), a Begin that fails included: they are not called, and no handle of a
  new physical transaction appears.
\<close>

theorem C3_nested_reuses_handle:
  assumes "InTransaction (NewProvider p) ctx s"
  shows "\<exists>a q d. findTransContext (NewProvider p) ctx = Ref a q d
      \<and> findDBAndTransContext (NewProvider p) ctx s = Returns (Ref a q d, d)
      \<and> (\<forall>g callback en.
            transaction (NewProvider (p\<lparr>gormLib := g\<rparr>)) ctx d callback en s
              = callback d (Some (bindStatement d)) en s)
      \<and> (\<forall>g callback.
            Transaction (NewProvider (p\<lparr>gormLib := g\<rparr>)) ctx callback s
              = (case callback
                        (setTransContext (NewProvider p) ctx (fst (Start (Ref a q d) d s)))
                        (bindStatement d
                           (setTransContext (NewProvider p) ctx (fst (Start (Ref a q d) d s)))
                           (snd (Start (Ref a q d) d s))) of
                   (r, s3) \<Rightarrow>
                     Transaction_finish (NewProvider p) (fst (Start (Ref a q d) d s)) r s3))"
proof -
  from assms obtain a q d where t: "findTransContext (NewProvider p) ctx = Ref a q d"
    by (cases "findTransContext (NewProvider p) ctx") (auto simp: InTransaction_def)
  have k: "ctxKeyF (NewProvider (p\<lparr>gormLib := g\<rparr>)) = ctxKeyF (NewProvider p)" for g
    by (rule ext) (simp add: NewProvider_fields getCtxKey_def)
  have inp: "isInTransaction (p\<lparr>gormLib := g\<rparr>) ctx s" for g
    using assms by (simp add: isInTransaction_eq InTransaction_def findTransContext_key [OF k])
  have f: "findDBAndTransContext (NewProvider p) ctx s = Returns (Ref a q d, d)"
    using assms t by (simp add: findDBAndTransContext_def InTransaction_def)
  have tr: "\<forall>g callback en.
              transaction (NewProvider (p\<lparr>gormLib := g\<rparr>)) ctx d callback en s
                = callback d (Some (bindStatement d)) en s"
    using inp by (simp add: NewProvider_fields transaction_p_def)
  have T: "Transaction (NewProvider (p\<lparr>gormLib := g\<rparr>)) ctx callback s
              = (case callback
                        (setTransContext (NewProvider p) ctx (fst (Start (Ref a q d) d s)))
                        (bindStatement d
                           (setTransContext (NewProvider p) ctx (fst (Start (Ref a q d) d s)))
                           (snd (Start (Ref a q d) d s))) of
                   (r, s3) \<Rightarrow>
                     Transaction_finish (NewProvider p) (fst (Start (Ref a q d) d s)) r s3)"
    for g callback
  proof -
    let ?m' = "NewProvider (p\<lparr>gormLib := g\<rparr>)"
    have t': "findTransContext ?m' ctx = Ref a q d"
      using t by (simp add: findTransContext_key [OF k])
    have i': "InTransaction_tc s (Ref a q d)"
      using assms t by (simp add: InTransaction_def)
    have s': "setTransContext ?m' = setTransContext (NewProvider p)"
      by (intro ext) (simp add: setTransContext_def k)
    show ?thesis
      using Transaction_nested [OF t' i', of callback]
      by (simp add: childCtx_def childState_def childRef_def Start_def s'
          Transaction_finish_key [OF k])
  qed
  from t f tr T show ?thesis by blast
qed

theorem C3_nested_reuses_handle_witness:
  "InTransaction (NewProvider exampleProvider) insideCtx insideState
 \<and> findDBAndTransContext (NewProvider exampleProvider) insideCtx insideState
      = Returns (Ref 0 NilRef 101, 101)
 \<and> (\<forall>g callback en.
       transaction (NewProvider (exampleProvider\<lparr>gormLib := g\<rparr>)) insideCtx 101 callback en
         insideState
       = callback 101 (Some (bindStatement 101)) en insideState)
 \<and> (\<forall>g callback.
       Transaction (NewProvider (exampleProvider\<lparr>gormLib := g\<rparr>)) insideCtx callback insideState
       = (case callback
                 (setTransContext (NewProvider exampleProvider) insideCtx
                    (Ref 1 (Ref 0 NilRef 101) 101))
                 (bindStatement 101
                    (setTransContext (NewProvider exampleProvider) insideCtx
                       (Ref 1 (Ref 0 NilRef 101) 101))
                    (snd (Start (Ref 0 NilRef 101) 101 insideState))) of
            (r, s3) \<Rightarrow>
              Transaction_finish (NewProvider exampleProvider) (Ref 1 (Ref 0 NilRef 101) 101)
                r s3))"
proof -
  have a: "InTransaction (NewProvider exampleProvider) insideCtx insideState"
    by code_simp
  have b: "findTransContext (NewProvider exampleProvider) insideCtx = Ref 0 NilRef 101"
    by code_simp
  have c: "fst (Start (Ref 0 NilRef 101) 101 insideState) = Ref 1 (Ref 0 NilRef 101) 101"
    by code_simp
  from C3_nested_reuses_handle [OF a] obtain a' q' d' where
    1: "findTransContext (NewProvider exampleProvider) insideCtx = Ref a' q' d'"
    and 2: "findDBAndTransContext (NewProvider exampleProvider) insideCtx insideState
              = Returns (Ref a' q' d', d')"
    and 3: "\<forall>g callback en.
              transaction (NewProvider (exampleProvider\<lparr>gormLib := g\<rparr>)) insideCtx d' callback en
                insideState
              = callback d' (Some (bindStatement d')) en insideState"
    and 4: "\<forall>g callback.
            Transaction (NewProvider (exampleProvider\<lparr>gormLib := g\<rparr>)) insideCtx callback insideState
              = (case callback
                        (setTransContext (NewProvider exampleProvider) insideCtx
                           (fst (Start (Ref a' q' d') d' insideState)))
                        (bindStatement d'
                           (setTransContext (NewProvider exampleProvider) insideCtx
                              (fst (Start (Ref a' q' d') d' insideState)))
                           (snd (Start (Ref a' q' d') d' insideState))) of
                   (r, s3) \<Rightarrow>
                     Transaction_finish (NewProvider exampleProvider)
                       (fst (Start (Ref a' q' d') d' insideState)) r s3)"
    by blast
  from 1 b have e: "a' = 0" "q' = NilRef" "d' = 101" by simp_all
  show ?thesis
    using a 2 3 4 unfolding e c by blast
qed




text \<open>
  Claim C5. The original context holds no transaction node, so \<^verbatim>\<open>InTransaction\<close> is
  false for it before the call. Whatever the callback of the outermost call does, at any
  depth of nested calls: every answer a callback got when it asked \<^verbatim>\<open>InTransaction\<close>
  of its context while running (a program may ask at any point) was true; once the
  outermost call has returned or panicked, \<^verbatim>\<open>InTransaction\<close> is false for each of
  those contexts, and for the original one.
\<close>

theorem C5_InTransaction_inside_and_after:
  assumes ks: "keyStable (NewProvider p)"
      and orig: "findTransContext (NewProvider p) ctx = NilRef"
  shows "\<not> InTransaction (NewProvider p) ctx s
       \<and> (\<exists>evs. trace (snd (Transaction (NewProvider p) ctx (run (NewProvider p) prog) s))
                  = trace s @ evs
              \<and> (\<forall>(cx, b) \<in> set (observations evs).
                    b \<and> \<not> InTransaction (NewProvider p) cx
                           (snd (Transaction (NewProvider p) ctx (run (NewProvider p) prog) s))))
       \<and> \<not> InTransaction (NewProvider p) ctx
             (snd (Transaction (NewProvider p) ctx (run (NewProvider p) prog) s))"
proof -
  let ?m = "NewProvider p"
  let ?T = "Transaction ?m ctx (run ?m prog) s"
  have out: "\<not> InTransaction ?m ctx s'" for s'
    using orig by (simp add: InTransaction_def)
  have mid: "\<exists>evs. trace (snd ?T) = trace s @ evs
              \<and> (\<forall>(cx, b) \<in> set (observations evs). b \<and> \<not> InTransaction ?m cx (snd ?T))"
  proof (cases "\<exists>d. lookupDB_p p ctx True = Returns (Some d)")
    case False
    then have "\<exists>x. findDBAndTransContext ?m ctx s = Panics x"
      using out [of s]
      by (cases "lookupDB_p p ctx True")
         (auto simp: findDBAndTransContext_def InTransaction_def NewProvider_fields
            split: option.splits)
    then obtain x where "?T = (Panics x, s)"
      using Transaction_lookup_panics [OF out [of s]] by blast
    then show ?thesis by (intro exI [of _ "[]"]) simp
  next
    case True
    then obtain d where lk: "lookupDB_p p ctx True = Returns (Some d)" by blast
    show ?thesis
    proof (cases "beginErr (gormLib p) d")
      case (Some e)
      from Transaction_begin_fails [OF out lk Some]
      have "?T = (Returns (Some e), s)" .
      then show ?thesis by (intro exI [of _ "[]"]) simp
    next
      case None
      let ?tx = "txOf (gormLib p) d"
      from run_root [OF ks, of prog ctx ?tx s] obtain s3 evs where
        r1: "run ?m prog (childCtx ?m ctx NilRef ?tx s) (childState ?m ctx NilRef ?tx s)
               = (outcome prog, s3)"
        and e: "trace s3 = trace s @ evs" "\<forall>ev\<in>set evs. seenInside ?m (fresh s) ev"
        by blast
      from Transaction_finish_shape
             [of ?m "fresh s" NilRef ?tx
                 "if outcome prog = Returns None then Returns (commitErr (gormLib p) d)
                  else outcome prog" s3]
      obtain r' s' evs2 where
        T: "?T = (r', s')" and t: "trace s' = trace s3 @ evs2" "observations evs2 = []"
        and dn: "done_flag (mem s' (fresh s))"
        using Transaction_outermost [OF out lk None, of "run ?m prog"] r1
        by (auto simp: childRef_def)
      have "\<forall>(cx, b) \<in> set (observations (evs @ evs2)). b \<and> \<not> InTransaction ?m cx s'"
      proof (clarify)
        fix cx b assume "(cx, b) \<in> set (observations (evs @ evs2))"
        then have "(cx, b) \<in> set (observations evs)"
          using t(2) by (simp add: observations_append)
        from seenInside_observations [OF e(2) this] dn
        show "b \<and> \<not> InTransaction ?m cx s'"
          by (simp add: InTransaction_def InTransaction_tc_rootCell)
      qed
      then show ?thesis
        using T t e by (intro exI [of _ "evs @ evs2"]) simp
    qed
  qed
  show ?thesis using out mid by blast
qed

theorem C5_InTransaction_inside_and_after_witness:
  "keyStable (NewProvider exampleProvider)
 \<and> findTransContext (NewProvider exampleProvider) [] = NilRef
 \<and> \<not> InTransaction (NewProvider exampleProvider) [] emptyState
 \<and> length (observations (trace (snd (Transaction (NewProvider exampleProvider) []
       (run (NewProvider exampleProvider) twoLevels) emptyState)))) = 2
 \<and> list_all (\<lambda>(cx, b). b \<and> \<not> InTransaction (NewProvider exampleProvider) cx
       (snd (Transaction (NewProvider exampleProvider) []
          (run (NewProvider exampleProvider) twoLevels) emptyState)))
     (observations (trace (snd (Transaction (NewProvider exampleProvider) []
       (run (NewProvider exampleProvider) twoLevels) emptyState))))
 \<and> \<not> InTransaction (NewProvider exampleProvider) []
       (snd (Transaction (NewProvider exampleProvider) []
          (run (NewProvider exampleProvider) twoLevels) emptyState))"
proof -
  have ks: "keyStable (NewProvider exampleProvider)"
    using exampleManager_keyStable by (simp add: exampleManager_def)
  have orig: "findTransContext (NewProvider exampleProvider) [] = NilRef"
    by (simp add: findTransContext_def)
  have e: "trace emptyState = []" by (simp add: emptyState_def)
  have n: "length (observations (trace (snd (Transaction (NewProvider exampleProvider) []
       (run (NewProvider exampleProvider) twoLevels) emptyState)))) = 2"
    by code_simp
  from C5_InTransaction_inside_and_after [OF ks orig, of emptyState twoLevels]
  show ?thesis
    using ks orig n e by (auto simp: list_all_iff)
qed

text \<open>
  Claim C6. \<^verbatim>\<open>Transaction\<close> on a context with no active transaction node, when
  \<^verbatim>\<open>lookupDB\<close> yields no handle (a nil interface), panics with "matching database
  not found": the call never returns an error value, the callback is not run and the
  store is left as it was. (The \<^verbatim>\<open>lookupDB\<close> that \<^verbatim>\<open>NewProvider\<close> builds never
  yields a nil interface; with no write database routed it panics itself, and so does
  \<^verbatim>\<open>Transaction\<close>: lemma \<open>Transaction_no_write_database\<close>.)
\<close>

theorem C6_lookup_failure_panics:
  assumes "\<not> InTransaction m ctx s" and "lookupDB m ctx = Returns None"
  shows "Transaction m ctx callback s =
           (Panics (PanicValue ''matching database not found''), s)"
  using assms
  by (simp add: Transaction_def findDBAndTransContext_def InTransaction_def
      Transaction_deferred_def)

theorem C6_lookup_failure_panics_witness:
  "\<not> InTransaction noDatabase [] emptyState
   \<and> lookupDB noDatabase [] = Returns None
   \<and> Transaction noDatabase [] (run noDatabase (Return None)) emptyState
      = (Panics (PanicValue ''matching database not found''), emptyState)"
  using C6_lookup_failure_panics [of noDatabase "[]" emptyState "run noDatabase (Return None)"]
  by (simp add: InTransaction_def findTransContext_def noDatabase_def NewManager_def)

text \<open>
  Claim C7. \<^verbatim>\<open>EscapeTransaction\<close> called on a context that is inside an active
  transaction calls its callback with a derived context on which, in every later store,
  \<^verbatim>\<open>InTransaction\<close> is false and \<^verbatim>\<open>OnCommitted\<close> and \<^verbatim>\<open>OnRollbacked\<close> register
  nothing and return false; the original context still reports \<^verbatim>\<open>InTransaction\<close>
  true. The key function gives the derived context the key of the original one.
\<close>

theorem C7_escape_strips_marker:
  assumes "InTransaction m ctx s"
      and "ctxKeyF m ((ctxKeyF m ctx, NilRef) # ctx) = ctxKeyF m ctx"
  shows "EscapeTransaction m ctx callback s = callback (cleanTransContext m ctx s) s
       \<and> \<not> InTransaction m (cleanTransContext m ctx s) s'
       \<and> OnCommitted m (cleanTransContext m ctx s) c s' = (Returns False, s')
       \<and> OnRollbacked m (cleanTransContext m ctx s) c s' = (Returns False, s')
       \<and> InTransaction m ctx s"
  using assms
  by (simp add: EscapeTransaction_def cleanTransContext_def InTransaction_def OnCommitted_def
      OnRollbacked_def findTransContext_def)

theorem C7_escape_strips_marker_witness:
  "InTransaction exampleManager insideCtx insideState
 \<and> cleanTransContext exampleManager insideCtx insideState = (''main.x'', NilRef) # insideCtx
 \<and> EscapeTransaction exampleManager insideCtx (run exampleManager (Return None)) insideState
     = (Returns None, insideState)
 \<and> \<not> InTransaction exampleManager ((''main.x'', NilRef) # insideCtx) insideState
 \<and> OnCommitted exampleManager ((''main.x'', NilRef) # insideCtx) (UserCallback 5 ThenReturn)
       insideState
     = (Returns False, insideState)
 \<and> OnRollbacked exampleManager ((''main.x'', NilRef) # insideCtx) (UserCallback 5 ThenReturn)
       insideState
     = (Returns False, insideState)"
proof -
  have a: "InTransaction exampleManager insideCtx insideState"
    by code_simp
  have b: "ctxKeyF exampleManager ((ctxKeyF exampleManager insideCtx, NilRef) # insideCtx)
             = ctxKeyF exampleManager insideCtx"
    by (simp add: exampleManager_def NewProvider_fields getCtxKey_def exampleProvider_def)
  have c: "cleanTransContext exampleManager insideCtx insideState
             = (''main.x'', NilRef) # insideCtx"
    by code_simp
  show ?thesis
    using C7_escape_strips_marker
      [OF a b, of "run exampleManager (Return None)" insideState "UserCallback 5 ThenReturn"] a c
    by simp
qed

text \<open>
  Claim C8, as stated, fails: after an outermost call whose callback registered commit
  callback 1 and rollback callback 2 has returned nil and the cascade has called commit
  callback 1, the root's two registries still hold their closures.
\<close>

theorem C8_counterexample:
  "fst registersBoth = Returns None
 \<and> committedCalls (trace (snd registersBoth)) = [1]
 \<and> map userId (onCommittedCallbacks (mem (snd registersBoth) 0)) = [1]
 \<and> map userId (onRollbackedCallbacks (mem (snd registersBoth) 0)) = [2]"
  by code_simp

text \<open>
  Claim C8, amended. An outermost \<^verbatim>\<open>Transaction\<close> call is made, a database is routed
  and the physical transaction begins; the root is the node at the address \<open>fresh s\<close>.
  When the callback has ended (store \<open>s3\<close>), and so up to the cascade, the root's two
  registries hold the closures of all the commit and all the rollback callbacks that the
  callback and the nested callbacks have registered, in the order of registration. When
  the call has ended (store \<open>s'\<close>), after every cascade it has run, each registry still
  begins with all the closures it held in \<open>s3\<close>: none has been removed, and a callback
  that registers while a cascade runs adds to the end. The same holds of \<^verbatim>\<open>End\<close> on
  any node, in any store and with any closures in the registries: both cascades call
  the closures of a copy, and nothing assigns a registry but a registration, which
  appends.
\<close>

theorem C8_registries_kept:
  assumes ks: "keyStable (NewProvider p)"
      and out: "\<not> InTransaction (NewProvider p) ctx s"
      and lk: "lookupDB_p p ctx True = Returns (Some d)"
      and bg: "beginErr (gormLib p) d = None"
  shows "\<exists>r s3 r' s'.
           run (NewProvider p) prog
             (childCtx (NewProvider p) ctx NilRef (txOf (gormLib p) d) s)
             (childState (NewProvider p) ctx NilRef (txOf (gormLib p) d) s) = (r, s3)
         \<and> map userId (onCommittedCallbacks (mem s3 (fresh s))) = registeredCommitted prog
         \<and> map userId (onRollbackedCallbacks (mem s3 (fresh s))) = registeredRollbacked prog
         \<and> Transaction (NewProvider p) ctx (run (NewProvider p) prog) s = (r', s')
         \<and> prefix (onCommittedCallbacks (mem s3 (fresh s)))
                  (onCommittedCallbacks (mem s' (fresh s)))
         \<and> prefix (onRollbackedCallbacks (mem s3 (fresh s)))
                  (onRollbackedCallbacks (mem s' (fresh s)))
         \<and> (\<forall>m t pk e s0 a.
               prefix (onCommittedCallbacks (mem s0 a))
                      (onCommittedCallbacks (mem (snd (End_tc m t pk e s0)) a))
             \<and> prefix (onRollbackedCallbacks (mem s0 a))
                      (onRollbackedCallbacks (mem (snd (End_tc m t pk e s0)) a)))"
proof -
  let ?m = "NewProvider p"
  let ?tx = "txOf (gormLib p) d"
  let ?a = "fresh s"
  from run_root [OF ks, of prog ctx ?tx s] obtain s3 cs rs where
    r1: "run ?m prog (childCtx ?m ctx NilRef ?tx s) (childState ?m ctx NilRef ?tx s)
           = (outcome prog, s3)"
    and c: "onCommittedCallbacks (mem s3 ?a) = cs" "map userCallbackOf cs = committedCallbacks prog"
           "\<forall>cb\<in>set cs. isCommitCb cb \<and> ?a \<in> guardCells cb \<and> guardCells cb \<subseteq> {?a..<fresh s3}"
    and r: "onRollbackedCallbacks (mem s3 ?a) = rs" "map userId rs = registeredRollbacked prog"
    by blast
  have ids: "map userId cs = registeredCommitted prog"
    using userId_closures [OF c(2)] c(3) by simp
  from Transaction_finish_shape
         [of ?m ?a NilRef ?tx
             "if outcome prog = Returns None then Returns (commitErr (gormLib p) d)
              else outcome prog" s3]
  obtain r' s' where
    T: "Transaction ?m ctx (run ?m prog) s = (r', s')" and k: "keeps s3 s'"
    using Transaction_outermost [OF out lk bg, of "run ?m prog"] r1
    by (auto simp: childRef_def)
  have E: "\<forall>m t pk e s0 a.
               prefix (onCommittedCallbacks (mem s0 a))
                      (onCommittedCallbacks (mem (snd (End_tc m t pk e s0)) a))
             \<and> prefix (onRollbackedCallbacks (mem s0 a))
                      (onRollbackedCallbacks (mem (snd (End_tc m t pk e s0)) a))"
    using End_tc_keeps by (simp add: keeps_def)
  from k have
    "prefix (onCommittedCallbacks (mem s3 ?a)) (onCommittedCallbacks (mem s' ?a))"
    "prefix (onRollbackedCallbacks (mem s3 ?a)) (onRollbackedCallbacks (mem s' ?a))"
    by (simp_all add: keeps_def)
  with r1 c(1) ids r T E show ?thesis by blast
qed

theorem C8_registries_kept_witness:
  "keyStable (NewProvider exampleProvider)
 \<and> \<not> InTransaction (NewProvider exampleProvider) [] emptyState
 \<and> lookupDB_p exampleProvider [] True = Returns (Some 1)
 \<and> beginErr (gormLib exampleProvider) 1 = None
 \<and> registeredCommitted registersInCascade = [1]
 \<and> registeredRollbacked registersInCascade = [2]
 \<and> map userId (onCommittedCallbacks (mem (snd
       (run (NewProvider exampleProvider) registersInCascade
          (childCtx (NewProvider exampleProvider) [] NilRef
             (txOf (gormLib exampleProvider) 1) emptyState)
          (childState (NewProvider exampleProvider) [] NilRef
             (txOf (gormLib exampleProvider) 1) emptyState))) 0)) = [1]
 \<and> map userId (onRollbackedCallbacks (mem (snd
       (run (NewProvider exampleProvider) registersInCascade
          (childCtx (NewProvider exampleProvider) [] NilRef
             (txOf (gormLib exampleProvider) 1) emptyState)
          (childState (NewProvider exampleProvider) [] NilRef
             (txOf (gormLib exampleProvider) 1) emptyState))) 0)) = [2]
 \<and> committedCalls (trace (snd (Transaction (NewProvider exampleProvider) []
       (run (NewProvider exampleProvider) registersInCascade) emptyState))) = [1]
 \<and> map userId (onCommittedCallbacks (mem (snd (Transaction (NewProvider exampleProvider) []
       (run (NewProvider exampleProvider) registersInCascade) emptyState)) 0)) = [1]
 \<and> map userId (onRollbackedCallbacks (mem (snd (Transaction (NewProvider exampleProvider) []
       (run (NewProvider exampleProvider) registersInCascade) emptyState)) 0)) = [2, 9]"
proof -
  have ks: "keyStable (NewProvider exampleProvider)"
    using exampleManager_keyStable by (simp add: exampleManager_def)
  have out: "\<not> InTransaction (NewProvider exampleProvider) [] emptyState"
    by (simp add: InTransaction_def findTransContext_def)
  have lk: "lookupDB_p exampleProvider [] True = Returns (Some 1)"
    by (simp add: lookupDB_p_def exampleProvider_def)
  have bg: "beginErr (gormLib exampleProvider) 1 = None"
    by (simp add: exampleProvider_def exampleGorm_def)
  have n: "registeredCommitted registersInCascade = [1]"
          "registeredRollbacked registersInCascade = [2]"
    by (simp_all add: registersInCascade_def)
  have f: "fresh emptyState = 0" by (simp add: emptyState_def)
  have after:
    "committedCalls (trace (snd (Transaction (NewProvider exampleProvider) []
       (run (NewProvider exampleProvider) registersInCascade) emptyState))) = [1]"
    "map userId (onCommittedCallbacks (mem (snd (Transaction (NewProvider exampleProvider) []
       (run (NewProvider exampleProvider) registersInCascade) emptyState)) 0)) = [1]"
    "map userId (onRollbackedCallbacks (mem (snd (Transaction (NewProvider exampleProvider) []
       (run (NewProvider exampleProvider) registersInCascade) emptyState)) 0)) = [2, 9]"
    by code_simp+
  from C8_registries_kept [OF ks out lk bg, of registersInCascade]
  show ?thesis
    using ks out lk bg n f after by auto
qed

text \<open>
  Claim C9. On a context that holds a transaction node whose root has ended,
  \<^verbatim>\<open>OnCommitted\<close> registers nothing and returns false, and \<^verbatim>\<open>OnRollbacked\<close>
  returns true; \<^verbatim>\<open>OnRollbacked\<close> returns false exactly when the context holds no
  node at all.
\<close>

theorem C9_inactive_node_registration:
  assumes "findTransContext m ctx \<noteq> NilRef"
      and "\<not> InTransaction_tc s (findTransContext m ctx)"
  shows "OnCommitted m ctx c s = (Returns False, s)
       \<and> fst (OnRollbacked m ctx c s) = Returns True
       \<and> ((fst (OnRollbacked m ctx' c s') = Returns False)
            = (findTransContext m ctx' = NilRef))"
  using assms by (simp add: OnCommitted_eq OnRollbacked_eq)

theorem C9_inactive_node_registration_witness:
  "findTransContext exampleManager insideCtx \<noteq> NilRef
 \<and> \<not> InTransaction_tc endedState (findTransContext exampleManager insideCtx)
 \<and> OnCommitted exampleManager insideCtx (UserCallback 5 ThenReturn) endedState
     = (Returns False, endedState)
 \<and> fst (OnRollbacked exampleManager insideCtx (UserCallback 5 ThenReturn) endedState)
     = Returns True
 \<and> fst (OnRollbacked exampleManager [] (UserCallback 5 ThenReturn) endedState) = Returns False"
proof -
  have a: "findTransContext exampleManager insideCtx \<noteq> NilRef"
    by code_simp
  have b: "\<not> InTransaction_tc endedState (findTransContext exampleManager insideCtx)"
    by code_simp
  have c: "findTransContext exampleManager [] = NilRef"
    by code_simp
  show ?thesis
    using C9_inactive_node_registration
      [OF a b, of "UserCallback 5 ThenReturn" "[]" endedState] a b c by simp
qed

text \<open>
  Claim C10. When the provider's \<^verbatim>\<open>transaction\<close> function returns an error without
  calling the closure it was given (whatever that closure is, it returns the same error
  and leaves the closure's variables and the store as they were), \<^verbatim>\<open>Transaction\<close>
  returns that error and leaves the store as it was: no node is allocated and no callback
  is called. \<^verbatim>\<open>End\<close> on the nil node does nothing.
\<close>

theorem C10_begin_failure:
  assumes "findDBAndTransContext m ctx s = Returns (prev, d)"
      and "\<forall>cb. transaction m ctx d cb (NilRef, ctx) s = (Returns (Some e), (NilRef, ctx), s)"
  shows "Transaction m ctx callback s = (Returns (Some e), s)
       \<and> End_tc m NilRef False (Some e) s = (Returns (), s)"
  using assms by (simp add: Transaction_def Transaction_finish_def Transaction_deferred_def)

theorem C10_begin_failure_witness:
  "findDBAndTransContext (NewProvider beginFails) [] emptyState = Returns (NilRef, 1)
 \<and> (\<forall>cb. transaction (NewProvider beginFails) [] 1 cb (NilRef, []) emptyState
           = (Returns (Some (Error ''begin'')), (NilRef, []), emptyState))
 \<and> Transaction (NewProvider beginFails) []
      (run (NewProvider beginFails) (RegCommitted 1 (RegRollbacked 2 (Return None))))
      emptyState
     = (Returns (Some (Error ''begin'')), emptyState)"
proof -
  have a: "findDBAndTransContext (NewProvider beginFails) [] emptyState = Returns (NilRef, 1)"
    by (simp add: findDBAndTransContext_def findTransContext_def NewProvider_fields
        beginFails_def exampleProvider_def lookupDB_p_def)
  have b: "\<forall>cb. transaction (NewProvider beginFails) [] 1 cb (NilRef, []) emptyState
           = (Returns (Some (Error ''begin'')), (NilRef, []), emptyState)"
    by (simp add: NewProvider_fields transaction_p_def isInTransaction_def gormTransaction_def
        beginFails_def exampleProvider_def exampleGorm_def)
  show ?thesis
    using C10_begin_failure [OF a b] a b by simp
qed


end
